theory Spec2Isabelle
  imports Main "HOL-Library.List_Lexorder" "HOL-Library.Product_Lexorder"
begin

section \<open>Python values used by \<^verbatim>\<open>scripts/extract_names.py\<close>\<close>

text \<open>
  A Python \<^verbatim>\<open>str\<close> is a sequence of Unicode code points, and \<^verbatim>\<open>len\<close>, indexing,
  slicing and comparison all work on code points. A string is therefore a list of
  natural numbers; the order on strings is the lexicographic order on these lists, which
  is the order of Python's \<^verbatim>\<open><\<close> on \<^verbatim>\<open>str\<close>.
\<close>

type_synonym ustr = "nat list"

definition ascii :: "string \<Rightarrow> ustr" where
  "ascii s = map of_char s"

datatype error =
  OSError | JSONDecodeError | UnicodeDecodeError | AttributeError | TypeError | UnicodeEncodeError

text \<open>
  An exception as the script sees it in \<^verbatim>\<open>except Exception as e\<close>: its type and the
  text of \<^verbatim>\<open>str(e)\<close>, which the handlers print.
\<close>

type_synonym exn = "error \<times> ustr"

text \<open>
  What \<^verbatim>\<open>json.load\<close> returns. A JSON object arrives as a \<^verbatim>\<open>dict\<close>, kept here as
  the list of its items in insertion order. \<open>JNum\<close> is an \<^verbatim>\<open>int\<close>; \<open>JFloat\<close> is a
  \<^verbatim>\<open>float\<close>, whose value the script never reads.
\<close>

datatype json =
    JNull
  | JBool bool
  | JNum int
  | JFloat
  | JStr ustr
  | JArr "json list"
  | JObj "(ustr \<times> json) list"

subsection \<open>The string methods the script calls\<close>

text \<open>
  \<^verbatim>\<open>str.strip()\<close> removes the characters for which \<^verbatim>\<open>str.isspace()\<close> holds; the
  list below is the complete set of those code points.
\<close>

definition py_isspace :: "nat \<Rightarrow> bool" where
  "py_isspace c \<longleftrightarrow>
     c \<in> set [9, 10, 11, 12, 13, 28, 29, 30, 31, 32, 133, 160, 5760,
              8232, 8233, 8239, 8287, 12288] \<or> (8192 \<le> c \<and> c \<le> 8202)"

definition strip :: "ustr \<Rightarrow> ustr" where
  "strip s = rev (dropWhile py_isspace (rev (dropWhile py_isspace s)))"

text \<open>
  \<^verbatim>\<open>name[0].upper()\<close>. \<open>upper_cp\<close> is Python's mapping below 128 and on U+0131 and
  U+017F, the two code points above 127 whose upper-case form is an ASCII letter; every
  other code point is left as it is, which no comparison with an ASCII string can tell
  from Python's result.
\<close>

definition upper_cp :: "nat \<Rightarrow> ustr" where
  "upper_cp c =
     (if 97 \<le> c \<and> c \<le> 122 then [c - 32]
      else if c = 305 then [73]
      else if c = 383 then [83]
      else [c])"

definition py_upper :: "ustr \<Rightarrow> ustr" where
  "py_upper s = concat (map upper_cp s)"

definition startswith :: "ustr \<Rightarrow> ustr \<Rightarrow> bool" where
  "startswith s p \<longleftrightarrow> take (length p) s = p"

definition endswith :: "ustr \<Rightarrow> ustr \<Rightarrow> bool" where
  "endswith s p \<longleftrightarrow> length p \<le> length s \<and> drop (length s - length p) s = p"

text \<open>\<^verbatim>\<open>s.split(sep)\<close> for a one-character separator: never the empty list.\<close>

fun split_on :: "nat \<Rightarrow> ustr \<Rightarrow> ustr list" where
  "split_on sep [] = [[]]"
| "split_on sep (c # cs) =
     (if c = sep then [] # split_on sep cs
      else (case split_on sep cs of
              [] \<Rightarrow> [[c]]
            | p # ps \<Rightarrow> (c # p) # ps))"

text \<open>\<^verbatim>\<open>sep.join(pieces)\<close>, the inverse the specification of \<^verbatim>\<open>split\<close> refers to.\<close>

fun join :: "nat \<Rightarrow> ustr list \<Rightarrow> ustr" where
  "join sep [] = []"
| "join sep [p] = p"
| "join sep (p # q # ps) = p @ sep # join sep (q # ps)"

text \<open>\<^verbatim>\<open>str(n)\<close> for a number that is not negative.\<close>

fun decimal :: "nat \<Rightarrow> ustr" where
  "decimal n = (if n < 10 then [48 + n] else decimal (n div 10) @ [48 + n mod 10])"

declare decimal.simps [simp del]

subsection \<open>Unicode tables\<close>

text \<open>
  \<^verbatim>\<open>str.isdigit()\<close> and \<^verbatim>\<open>str.lower()\<close> read the Unicode character database. The
  tables below are those of Unicode 14.0, the version built into CPython 3.11, as ranges
  of code points: the characters with the digit property; the characters whose
  lower-case form is one other character, a range \<open>(lo, hi, step, lo')\<close> sending
  \<open>lo, lo + step, \<dots>, hi\<close> to \<open>lo', lo' + step, \<dots>\<close>; the case-ignorable characters; and
  the cased characters that are not case-ignorable.
\<close>

definition digit_ranges :: "(nat \<times> nat) list" where
  "digit_ranges =
    [(48, 57), (178, 179), (185, 185), (1632, 1641), (1776, 1785), (1984, 1993),
     (2406, 2415), (2534, 2543), (2662, 2671), (2790, 2799), (2918, 2927), (3046, 3055),
     (3174, 3183), (3302, 3311), (3430, 3439), (3558, 3567), (3664, 3673), (3792, 3801),
     (3872, 3881), (4160, 4169), (4240, 4249), (4969, 4977), (6112, 6121), (6160, 6169),
     (6470, 6479), (6608, 6618), (6784, 6793), (6800, 6809), (6992, 7001), (7088, 7097),
     (7232, 7241), (7248, 7257), (8304, 8304), (8308, 8313), (8320, 8329), (9312, 9320),
     (9332, 9340), (9352, 9360), (9450, 9450), (9461, 9469), (9471, 9471), (10102, 10110),
     (10112, 10120), (10122, 10130), (42528, 42537), (43216, 43225), (43264, 43273),
     (43472, 43481), (43504, 43513), (43600, 43609), (44016, 44025), (65296, 65305),
     (66720, 66729), (68160, 68163), (68912, 68921), (69216, 69224), (69714, 69722),
     (69734, 69743), (69872, 69881), (69942, 69951), (70096, 70105), (70384, 70393),
     (70736, 70745), (70864, 70873), (71248, 71257), (71360, 71369), (71472, 71481),
     (71904, 71913), (72016, 72025), (72784, 72793), (73040, 73049), (73120, 73129),
     (92768, 92777), (92864, 92873), (93008, 93017), (120782, 120831), (123200, 123209),
     (123632, 123641), (125264, 125273), (127232, 127242), (130032, 130041)]"

definition lower_ranges :: "(nat \<times> nat \<times> nat \<times> nat) list" where
  "lower_ranges =
    [(65, 90, 1, 97), (192, 214, 1, 224), (216, 222, 1, 248), (256, 302, 2, 257),
     (306, 310, 2, 307), (313, 327, 2, 314), (330, 374, 2, 331), (376, 376, 1, 255),
     (377, 381, 2, 378), (385, 385, 1, 595), (386, 388, 2, 387), (390, 390, 1, 596),
     (391, 391, 1, 392), (393, 394, 1, 598), (395, 395, 1, 396), (398, 398, 1, 477),
     (399, 399, 1, 601), (400, 400, 1, 603), (401, 401, 1, 402), (403, 403, 1, 608),
     (404, 404, 1, 611), (406, 406, 1, 617), (407, 407, 1, 616), (408, 408, 1, 409),
     (412, 412, 1, 623), (413, 413, 1, 626), (415, 415, 1, 629), (416, 420, 2, 417),
     (422, 422, 1, 640), (423, 423, 1, 424), (425, 425, 1, 643), (428, 428, 1, 429),
     (430, 430, 1, 648), (431, 431, 1, 432), (433, 434, 1, 650), (435, 437, 2, 436),
     (439, 439, 1, 658), (440, 440, 1, 441), (444, 444, 1, 445), (452, 452, 1, 454),
     (453, 453, 1, 454), (455, 455, 1, 457), (456, 456, 1, 457), (458, 458, 1, 460),
     (459, 475, 2, 460), (478, 494, 2, 479), (497, 497, 1, 499), (498, 500, 2, 499),
     (502, 502, 1, 405), (503, 503, 1, 447), (504, 542, 2, 505), (544, 544, 1, 414),
     (546, 562, 2, 547), (570, 570, 1, 11365), (571, 571, 1, 572), (573, 573, 1, 410),
     (574, 574, 1, 11366), (577, 577, 1, 578), (579, 579, 1, 384), (580, 580, 1, 649),
     (581, 581, 1, 652), (582, 590, 2, 583), (880, 882, 2, 881), (886, 886, 1, 887),
     (895, 895, 1, 1011), (902, 902, 1, 940), (904, 906, 1, 941), (908, 908, 1, 972),
     (910, 911, 1, 973), (913, 929, 1, 945), (931, 939, 1, 963), (975, 975, 1, 983),
     (984, 1006, 2, 985), (1012, 1012, 1, 952), (1015, 1015, 1, 1016),
     (1017, 1017, 1, 1010), (1018, 1018, 1, 1019), (1021, 1023, 1, 891),
     (1024, 1039, 1, 1104), (1040, 1071, 1, 1072), (1120, 1152, 2, 1121),
     (1162, 1214, 2, 1163), (1216, 1216, 1, 1231), (1217, 1229, 2, 1218),
     (1232, 1326, 2, 1233), (1329, 1366, 1, 1377), (4256, 4293, 1, 11520),
     (4295, 4295, 1, 11559), (4301, 4301, 1, 11565), (5024, 5103, 1, 43888),
     (5104, 5109, 1, 5112), (7312, 7354, 1, 4304), (7357, 7359, 1, 4349),
     (7680, 7828, 2, 7681), (7838, 7838, 1, 223), (7840, 7934, 2, 7841),
     (7944, 7951, 1, 7936), (7960, 7965, 1, 7952), (7976, 7983, 1, 7968),
     (7992, 7999, 1, 7984), (8008, 8013, 1, 8000), (8025, 8031, 2, 8017),
     (8040, 8047, 1, 8032), (8072, 8079, 1, 8064), (8088, 8095, 1, 8080),
     (8104, 8111, 1, 8096), (8120, 8121, 1, 8112), (8122, 8123, 1, 8048),
     (8124, 8124, 1, 8115), (8136, 8139, 1, 8050), (8140, 8140, 1, 8131),
     (8152, 8153, 1, 8144), (8154, 8155, 1, 8054), (8168, 8169, 1, 8160),
     (8170, 8171, 1, 8058), (8172, 8172, 1, 8165), (8184, 8185, 1, 8056),
     (8186, 8187, 1, 8060), (8188, 8188, 1, 8179), (8486, 8486, 1, 969),
     (8490, 8490, 1, 107), (8491, 8491, 1, 229), (8498, 8498, 1, 8526),
     (8544, 8559, 1, 8560), (8579, 8579, 1, 8580), (9398, 9423, 1, 9424),
     (11264, 11311, 1, 11312), (11360, 11360, 1, 11361), (11362, 11362, 1, 619),
     (11363, 11363, 1, 7549), (11364, 11364, 1, 637), (11367, 11371, 2, 11368),
     (11373, 11373, 1, 593), (11374, 11374, 1, 625), (11375, 11375, 1, 592),
     (11376, 11376, 1, 594), (11378, 11378, 1, 11379), (11381, 11381, 1, 11382),
     (11390, 11391, 1, 575), (11392, 11490, 2, 11393), (11499, 11501, 2, 11500),
     (11506, 11506, 1, 11507), (42560, 42604, 2, 42561), (42624, 42650, 2, 42625),
     (42786, 42798, 2, 42787), (42802, 42862, 2, 42803), (42873, 42875, 2, 42874),
     (42877, 42877, 1, 7545), (42878, 42886, 2, 42879), (42891, 42891, 1, 42892),
     (42893, 42893, 1, 613), (42896, 42898, 2, 42897), (42902, 42920, 2, 42903),
     (42922, 42922, 1, 614), (42923, 42923, 1, 604), (42924, 42924, 1, 609),
     (42925, 42925, 1, 620), (42926, 42926, 1, 618), (42928, 42928, 1, 670),
     (42929, 42929, 1, 647), (42930, 42930, 1, 669), (42931, 42931, 1, 43859),
     (42932, 42946, 2, 42933), (42948, 42948, 1, 42900), (42949, 42949, 1, 642),
     (42950, 42950, 1, 7566), (42951, 42953, 2, 42952), (42960, 42960, 1, 42961),
     (42966, 42968, 2, 42967), (42997, 42997, 1, 42998), (65313, 65338, 1, 65345),
     (66560, 66599, 1, 66600), (66736, 66771, 1, 66776), (66928, 66938, 1, 66967),
     (66940, 66954, 1, 66979), (66956, 66962, 1, 66995), (66964, 66965, 1, 67003),
     (68736, 68786, 1, 68800), (71840, 71871, 1, 71872), (93760, 93791, 1, 93792),
     (125184, 125217, 1, 125218)]"

definition case_ignorable_ranges :: "(nat \<times> nat) list" where
  "case_ignorable_ranges =
    [(39, 39), (46, 46), (58, 58), (94, 94), (96, 96), (168, 168), (173, 173), (175, 175),
     (180, 180), (183, 184), (688, 879), (884, 885), (890, 890), (900, 901), (903, 903),
     (1155, 1161), (1369, 1369), (1375, 1375), (1425, 1469), (1471, 1471), (1473, 1474),
     (1476, 1477), (1479, 1479), (1524, 1524), (1536, 1541), (1552, 1562), (1564, 1564),
     (1600, 1600), (1611, 1631), (1648, 1648), (1750, 1757), (1759, 1768), (1770, 1773),
     (1807, 1807), (1809, 1809), (1840, 1866), (1958, 1968), (2027, 2037), (2042, 2042),
     (2045, 2045), (2070, 2093), (2137, 2139), (2184, 2184), (2192, 2193), (2200, 2207),
     (2249, 2306), (2362, 2362), (2364, 2364), (2369, 2376), (2381, 2381), (2385, 2391),
     (2402, 2403), (2417, 2417), (2433, 2433), (2492, 2492), (2497, 2500), (2509, 2509),
     (2530, 2531), (2558, 2558), (2561, 2562), (2620, 2620), (2625, 2626), (2631, 2632),
     (2635, 2637), (2641, 2641), (2672, 2673), (2677, 2677), (2689, 2690), (2748, 2748),
     (2753, 2757), (2759, 2760), (2765, 2765), (2786, 2787), (2810, 2815), (2817, 2817),
     (2876, 2876), (2879, 2879), (2881, 2884), (2893, 2893), (2901, 2902), (2914, 2915),
     (2946, 2946), (3008, 3008), (3021, 3021), (3072, 3072), (3076, 3076), (3132, 3132),
     (3134, 3136), (3142, 3144), (3146, 3149), (3157, 3158), (3170, 3171), (3201, 3201),
     (3260, 3260), (3263, 3263), (3270, 3270), (3276, 3277), (3298, 3299), (3328, 3329),
     (3387, 3388), (3393, 3396), (3405, 3405), (3426, 3427), (3457, 3457), (3530, 3530),
     (3538, 3540), (3542, 3542), (3633, 3633), (3636, 3642), (3654, 3662), (3761, 3761),
     (3764, 3772), (3782, 3782), (3784, 3789), (3864, 3865), (3893, 3893), (3895, 3895),
     (3897, 3897), (3953, 3966), (3968, 3972), (3974, 3975), (3981, 3991), (3993, 4028),
     (4038, 4038), (4141, 4144), (4146, 4151), (4153, 4154), (4157, 4158), (4184, 4185),
     (4190, 4192), (4209, 4212), (4226, 4226), (4229, 4230), (4237, 4237), (4253, 4253),
     (4348, 4348), (4957, 4959), (5906, 5908), (5938, 5939), (5970, 5971), (6002, 6003),
     (6068, 6069), (6071, 6077), (6086, 6086), (6089, 6099), (6103, 6103), (6109, 6109),
     (6155, 6159), (6211, 6211), (6277, 6278), (6313, 6313), (6432, 6434), (6439, 6440),
     (6450, 6450), (6457, 6459), (6679, 6680), (6683, 6683), (6742, 6742), (6744, 6750),
     (6752, 6752), (6754, 6754), (6757, 6764), (6771, 6780), (6783, 6783), (6823, 6823),
     (6832, 6862), (6912, 6915), (6964, 6964), (6966, 6970), (6972, 6972), (6978, 6978),
     (7019, 7027), (7040, 7041), (7074, 7077), (7080, 7081), (7083, 7085), (7142, 7142),
     (7144, 7145), (7149, 7149), (7151, 7153), (7212, 7219), (7222, 7223), (7288, 7293),
     (7376, 7378), (7380, 7392), (7394, 7400), (7405, 7405), (7412, 7412), (7416, 7417),
     (7468, 7530), (7544, 7544), (7579, 7679), (8125, 8125), (8127, 8129), (8141, 8143),
     (8157, 8159), (8173, 8175), (8189, 8190), (8203, 8207), (8216, 8217), (8228, 8228),
     (8231, 8231), (8234, 8238), (8288, 8292), (8294, 8303), (8305, 8305), (8319, 8319),
     (8336, 8348), (8400, 8432), (11388, 11389), (11503, 11505), (11631, 11631),
     (11647, 11647), (11744, 11775), (11823, 11823), (12293, 12293), (12330, 12333),
     (12337, 12341), (12347, 12347), (12441, 12446), (12540, 12542), (40981, 40981),
     (42232, 42237), (42508, 42508), (42607, 42610), (42612, 42621), (42623, 42623),
     (42652, 42655), (42736, 42737), (42752, 42785), (42864, 42864), (42888, 42890),
     (42994, 42996), (43000, 43001), (43010, 43010), (43014, 43014), (43019, 43019),
     (43045, 43046), (43052, 43052), (43204, 43205), (43232, 43249), (43263, 43263),
     (43302, 43309), (43335, 43345), (43392, 43394), (43443, 43443), (43446, 43449),
     (43452, 43453), (43471, 43471), (43493, 43494), (43561, 43566), (43569, 43570),
     (43573, 43574), (43587, 43587), (43596, 43596), (43632, 43632), (43644, 43644),
     (43696, 43696), (43698, 43700), (43703, 43704), (43710, 43711), (43713, 43713),
     (43741, 43741), (43756, 43757), (43763, 43764), (43766, 43766), (43867, 43871),
     (43881, 43883), (44005, 44005), (44008, 44008), (44013, 44013), (64286, 64286),
     (64434, 64450), (65024, 65039), (65043, 65043), (65056, 65071), (65106, 65106),
     (65109, 65109), (65279, 65279), (65287, 65287), (65294, 65294), (65306, 65306),
     (65342, 65342), (65344, 65344), (65392, 65392), (65438, 65439), (65507, 65507),
     (65529, 65531), (66045, 66045), (66272, 66272), (66422, 66426), (67456, 67461),
     (67463, 67504), (67506, 67514), (68097, 68099), (68101, 68102), (68108, 68111),
     (68152, 68154), (68159, 68159), (68325, 68326), (68900, 68903), (69291, 69292),
     (69446, 69456), (69506, 69509), (69633, 69633), (69688, 69702), (69744, 69744),
     (69747, 69748), (69759, 69761), (69811, 69814), (69817, 69818), (69821, 69821),
     (69826, 69826), (69837, 69837), (69888, 69890), (69927, 69931), (69933, 69940),
     (70003, 70003), (70016, 70017), (70070, 70078), (70089, 70092), (70095, 70095),
     (70191, 70193), (70196, 70196), (70198, 70199), (70206, 70206), (70367, 70367),
     (70371, 70378), (70400, 70401), (70459, 70460), (70464, 70464), (70502, 70508),
     (70512, 70516), (70712, 70719), (70722, 70724), (70726, 70726), (70750, 70750),
     (70835, 70840), (70842, 70842), (70847, 70848), (70850, 70851), (71090, 71093),
     (71100, 71101), (71103, 71104), (71132, 71133), (71219, 71226), (71229, 71229),
     (71231, 71232), (71339, 71339), (71341, 71341), (71344, 71349), (71351, 71351),
     (71453, 71455), (71458, 71461), (71463, 71467), (71727, 71735), (71737, 71738),
     (71995, 71996), (71998, 71998), (72003, 72003), (72148, 72151), (72154, 72155),
     (72160, 72160), (72193, 72202), (72243, 72248), (72251, 72254), (72263, 72263),
     (72273, 72278), (72281, 72283), (72330, 72342), (72344, 72345), (72752, 72758),
     (72760, 72765), (72767, 72767), (72850, 72871), (72874, 72880), (72882, 72883),
     (72885, 72886), (73009, 73014), (73018, 73018), (73020, 73021), (73023, 73029),
     (73031, 73031), (73104, 73105), (73109, 73109), (73111, 73111), (73459, 73460),
     (78896, 78904), (92912, 92916), (92976, 92982), (92992, 92995), (94031, 94031),
     (94095, 94111), (94176, 94177), (94179, 94180), (110576, 110579), (110581, 110587),
     (110589, 110590), (113821, 113822), (113824, 113827), (118528, 118573),
     (118576, 118598), (119143, 119145), (119155, 119170), (119173, 119179),
     (119210, 119213), (119362, 119364), (121344, 121398), (121403, 121452),
     (121461, 121461), (121476, 121476), (121499, 121503), (121505, 121519),
     (122880, 122886), (122888, 122904), (122907, 122913), (122915, 122916),
     (122918, 122922), (123184, 123197), (123566, 123566), (123628, 123631),
     (125136, 125142), (125252, 125259), (127995, 127999), (917505, 917505),
     (917536, 917631), (917760, 917999)]"

definition cased_ranges :: "(nat \<times> nat) list" where
  "cased_ranges =
    [(65, 90), (97, 122), (170, 170), (181, 181), (186, 186), (192, 214), (216, 246),
     (248, 442), (444, 447), (452, 659), (661, 687), (880, 883), (886, 887), (891, 893),
     (895, 895), (902, 902), (904, 906), (908, 908), (910, 929), (931, 1013), (1015, 1153),
     (1162, 1327), (1329, 1366), (1376, 1416), (4256, 4293), (4295, 4295), (4301, 4301),
     (4304, 4346), (4349, 4351), (5024, 5109), (5112, 5117), (7296, 7304), (7312, 7354),
     (7357, 7359), (7424, 7467), (7531, 7543), (7545, 7578), (7680, 7957), (7960, 7965),
     (7968, 8005), (8008, 8013), (8016, 8023), (8025, 8025), (8027, 8027), (8029, 8029),
     (8031, 8061), (8064, 8116), (8118, 8124), (8126, 8126), (8130, 8132), (8134, 8140),
     (8144, 8147), (8150, 8155), (8160, 8172), (8178, 8180), (8182, 8188), (8450, 8450),
     (8455, 8455), (8458, 8467), (8469, 8469), (8473, 8477), (8484, 8484), (8486, 8486),
     (8488, 8488), (8490, 8493), (8495, 8500), (8505, 8505), (8508, 8511), (8517, 8521),
     (8526, 8526), (8544, 8575), (8579, 8580), (9398, 9449), (11264, 11387), (11390, 11492),
     (11499, 11502), (11506, 11507), (11520, 11557), (11559, 11559), (11565, 11565),
     (42560, 42605), (42624, 42651), (42786, 42863), (42865, 42887), (42891, 42894),
     (42896, 42954), (42960, 42961), (42963, 42963), (42965, 42969), (42997, 42998),
     (43002, 43002), (43824, 43866), (43872, 43880), (43888, 43967), (64256, 64262),
     (64275, 64279), (65313, 65338), (65345, 65370), (66560, 66639), (66736, 66771),
     (66776, 66811), (66928, 66938), (66940, 66954), (66956, 66962), (66964, 66965),
     (66967, 66977), (66979, 66993), (66995, 67001), (67003, 67004), (68736, 68786),
     (68800, 68850), (71840, 71903), (93760, 93823), (119808, 119892), (119894, 119964),
     (119966, 119967), (119970, 119970), (119973, 119974), (119977, 119980),
     (119982, 119993), (119995, 119995), (119997, 120003), (120005, 120069),
     (120071, 120074), (120077, 120084), (120086, 120092), (120094, 120121),
     (120123, 120126), (120128, 120132), (120134, 120134), (120138, 120144),
     (120146, 120485), (120488, 120512), (120514, 120538), (120540, 120570),
     (120572, 120596), (120598, 120628), (120630, 120654), (120656, 120686),
     (120688, 120712), (120714, 120744), (120746, 120770), (120772, 120779),
     (122624, 122633), (122635, 122654), (125184, 125251), (127280, 127305),
     (127312, 127337), (127344, 127369)]"

fun in_ranges :: "(nat \<times> nat) list \<Rightarrow> nat \<Rightarrow> bool" where
  "in_ranges [] c = False"
| "in_ranges ((lo, hi) # t) c = (if lo \<le> c \<and> c \<le> hi then True else in_ranges t c)"

fun lower_lookup :: "(nat \<times> nat \<times> nat \<times> nat) list \<Rightarrow> nat \<Rightarrow> nat" where
  "lower_lookup [] c = c"
| "lower_lookup ((lo, hi, step, lo') # t) c =
     (if lo \<le> c \<and> c \<le> hi \<and> (c - lo) mod step = 0 then lo' + (c - lo)
      else lower_lookup t c)"

text \<open>
  \<^verbatim>\<open>str.isdigit()\<close>: false on the empty string, otherwise true when every character
  has the digit property.
\<close>

definition isdigit_cp :: "nat \<Rightarrow> bool" where
  "isdigit_cp c = in_ranges digit_ranges c"

definition py_isdigit :: "ustr \<Rightarrow> bool" where
  "py_isdigit s \<longleftrightarrow> s \<noteq> [] \<and> list_all isdigit_cp s"

text \<open>
  \<^verbatim>\<open>str.lower()\<close> maps each character by itself, with two exceptions: U+0130 becomes
  the two characters U+0069 U+0307, and the capital sigma U+03A3 becomes the final
  sigma U+03C2 when a cased character stands before it and none after it, case-ignorable
  characters skipped on both sides, and the small sigma U+03C3 otherwise.
  \<open>lower_ctx before s after\<close> lowers the piece \<open>s\<close> of a string, given the characters
  before it (nearest first) and the characters after it.
\<close>

definition lower_cp :: "nat \<Rightarrow> ustr" where
  "lower_cp c = (if c = 304 then [105, 775] else [lower_lookup lower_ranges c])"

definition final_sigma :: "ustr \<Rightarrow> ustr \<Rightarrow> bool" where
  "final_sigma before after \<longleftrightarrow>
     (case dropWhile (in_ranges case_ignorable_ranges) before of
        [] \<Rightarrow> False
      | p # ps \<Rightarrow> in_ranges cased_ranges p)
     \<and> (case dropWhile (in_ranges case_ignorable_ranges) after of
          [] \<Rightarrow> True
        | n # ns \<Rightarrow> \<not> in_ranges cased_ranges n)"

definition lower_char :: "ustr \<Rightarrow> nat \<Rightarrow> ustr \<Rightarrow> ustr" where
  "lower_char before c after =
     (if c = 931 then [if final_sigma before after then 962 else 963] else lower_cp c)"

fun lower_ctx :: "ustr \<Rightarrow> ustr \<Rightarrow> ustr \<Rightarrow> ustr" where
  "lower_ctx before [] after = []"
| "lower_ctx before (c # rest) after =
     lower_char before c (rest @ after) @ lower_ctx (c # before) rest after"

definition py_lower :: "ustr \<Rightarrow> ustr" where
  "py_lower s = lower_ctx [] s []"

subsection \<open>Dictionaries\<close>

text \<open>
  A \<^verbatim>\<open>dict\<close> is the list of its items in insertion order. Assigning to a key that is
  present replaces its value where it stands; assigning to a new key appends an item.
\<close>

type_synonym ('k, 'v) pydict = "('k \<times> 'v) list"

definition dict_get :: "('k, 'v) pydict \<Rightarrow> 'k \<Rightarrow> 'v option" where
  "dict_get d k = map_of d k"

fun dict_set :: "('k, 'v) pydict \<Rightarrow> 'k \<Rightarrow> 'v \<Rightarrow> ('k, 'v) pydict" where
  "dict_set [] k v = [(k, v)]"
| "dict_set ((k', v') # d) k v =
     (if k' = k then (k', v) # d else (k', v') # dict_set d k v)"

text \<open>
  Calling a method a value does not have raises \<^verbatim>\<open>AttributeError\<close> with the text
  \<^verbatim>\<open>'T' object has no attribute 'm'\<close>, \<^verbatim>\<open>T\<close> the name of the value's type.
\<close>

definition type_name :: "json \<Rightarrow> ustr" where
  "type_name v =
     (case v of
        JNull \<Rightarrow> ascii ''NoneType''
      | JBool b \<Rightarrow> ascii ''bool''
      | JNum n \<Rightarrow> ascii ''int''
      | JFloat \<Rightarrow> ascii ''float''
      | JStr s \<Rightarrow> ascii ''str''
      | JArr xs \<Rightarrow> ascii ''list''
      | JObj kvs \<Rightarrow> ascii ''dict'')"

definition no_attribute :: "json \<Rightarrow> ustr \<Rightarrow> exn" where
  "no_attribute v m =
     (AttributeError,
      [39] @ type_name v @ ascii '' object has no attribute '' @ [39] @ m @ [39])"

text \<open>\<^verbatim>\<open>data.get(key, default)\<close>; only a \<^verbatim>\<open>dict\<close> has the method.\<close>

definition py_get :: "json \<Rightarrow> ustr \<Rightarrow> json \<Rightarrow> exn + json" where
  "py_get data key dflt =
     (case data of
        JObj kvs \<Rightarrow> Inr (case dict_get kvs key of None \<Rightarrow> dflt | Some v \<Rightarrow> v)
      | _ \<Rightarrow> Inl (no_attribute data (ascii ''get'')))"

text \<open>\<^verbatim>\<open>v.strip()\<close> on a value of any type; only a \<^verbatim>\<open>str\<close> has the method.\<close>

definition strip_method :: "json \<Rightarrow> exn + ustr" where
  "strip_method v =
     (case v of JStr s \<Rightarrow> Inr (strip s) | _ \<Rightarrow> Inl (no_attribute v (ascii ''strip'')))"

subsection \<open>Standard output\<close>

text \<open>
  \<^verbatim>\<open>print\<close> encodes its text for \<^verbatim>\<open>sys.stdout\<close> and raises \<^verbatim>\<open>UnicodeEncodeError\<close>
  when a character has no encoding. Standard output is given by the set of code points
  above 127 that its encoder accepts; every ASCII character is taken to be encodable, as
  it is in the encodings Python chooses for a terminal or a pipe. \<open>utf8_strict\<close> is the
  default on Linux: everything but the surrogates, which \<^verbatim>\<open>os.listdir\<close> puts into a
  file name whose bytes are not UTF-8.
\<close>

type_synonym stdout = "nat \<Rightarrow> bool"

definition print_ok :: "stdout \<Rightarrow> ustr \<Rightarrow> bool" where
  "print_ok out s = list_all (\<lambda>c. c < 128 \<or> out c) s"

definition py_print :: "stdout \<Rightarrow> ustr \<Rightarrow> error + unit" where
  "py_print out s = (if print_ok out (s @ [10]) then Inr () else Inl UnicodeEncodeError)"

definition utf8_strict :: stdout where
  "utf8_strict c \<longleftrightarrow> c < 55296 \<or> (57343 < c \<and> c < 1114112)"

section \<open>The record store\<close>

text \<open>
  What the script finds at \<^verbatim>\<open>path\<close>: nothing; something \<^verbatim>\<open>os.listdir\<close> cannot
  list (a file, a directory without read permission), with the exception it raises; or
  a listing, in the order of \<^verbatim>\<open>os.listdir\<close>, of file names with what opening and
  parsing the file gives: an exception with its text (the file cannot be opened, is not
  UTF-8, or is not JSON) or the parsed document.
\<close>

datatype snow_file = Unreadable error ustr | Doc json

type_synonym listing = "(ustr \<times> snow_file) list"

datatype store = Absent | Unlistable error | Listing listing

definition SNOW_DIR :: ustr where
  "SNOW_DIR = ascii ''snow''"

definition json_load :: "snow_file \<Rightarrow> exn + json" where
  "json_load f = (case f of Unreadable e msg \<Rightarrow> Inl (e, msg) | Doc d \<Rightarrow> Inr d)"

section \<open>\<^verbatim>\<open>load_users\<close>\<close>

definition is_json_name :: "ustr \<Rightarrow> bool" where
  "is_json_name fname \<longleftrightarrow> endswith (py_lower fname) (ascii ''.json'')"

text \<open>
  The body of the \<^verbatim>\<open>try\<close> block (lines 33 to 37): \<open>Inl\<close> when a statement raises,
  \<open>Inr (Some name)\<close> when a pair is appended, \<open>Inr None\<close> when the name is empty.
\<close>

definition load_try :: "snow_file \<Rightarrow> exn + ustr option" where
  "load_try f =
     (case json_load f of
        Inl x \<Rightarrow> Inl x
      | Inr data \<Rightarrow>
          (case py_get data (ascii ''name'') (JStr []) of
             Inl x \<Rightarrow> Inl x
           | Inr v \<Rightarrow>
               (case strip_method v of
                  Inl x \<Rightarrow> Inl x
                | Inr name \<Rightarrow> Inr (if name \<noteq> [] then Some name else None))))"

text \<open>
  The loop of lines 27 to 40. The \<^verbatim>\<open>except Exception\<close> clause prints the file name
  and the exception, then continues; the \<^verbatim>\<open>print\<close> stands in the handler, outside the
  \<^verbatim>\<open>try\<close>, so an exception it raises leaves the loop and the function.
  \<^verbatim>\<open>fname[:-5]\<close> drops the last five characters (and is empty for a shorter name).
\<close>

definition error_line :: "ustr \<Rightarrow> ustr \<Rightarrow> ustr" where
  "error_line fname msg = ascii ''Error processing '' @ fname @ ascii '': '' @ msg"

fun load_loop :: "stdout \<Rightarrow> listing \<Rightarrow> (ustr \<times> ustr) list \<Rightarrow> error + (ustr \<times> ustr) list" where
  "load_loop out [] pairs = Inr pairs"
| "load_loop out ((fname, f) # rest) pairs =
     (if \<not> is_json_name fname then load_loop out rest pairs
      else
        (let uid = take (length fname - 5) fname in
         case load_try f of
           Inl (e, msg) \<Rightarrow>
             (case py_print out (error_line fname msg) of
                Inl e' \<Rightarrow> Inl e'
              | Inr u \<Rightarrow> load_loop out rest pairs)
         | Inr None \<Rightarrow> load_loop out rest pairs
         | Inr (Some name) \<Rightarrow> load_loop out rest (pairs @ [(name, uid)])))"

text \<open>
  \<^verbatim>\<open>load_users(path)\<close>, lines 17 to 43, with its three other \<^verbatim>\<open>print\<close> calls;
  \<^verbatim>\<open>os.listdir\<close> stands outside any \<^verbatim>\<open>try\<close>.
\<close>

definition load_users :: "stdout \<Rightarrow> ustr \<Rightarrow> store \<Rightarrow> error + (ustr \<times> ustr) list" where
  "load_users out path st =
     (case st of
        Absent \<Rightarrow>
          (case py_print out (ascii ''Directory '' @ path @ ascii '' does not exist!'') of
             Inl e \<Rightarrow> Inl e
           | Inr u \<Rightarrow> Inr [])
      | Unlistable e \<Rightarrow> Inl e
      | Listing files \<Rightarrow>
          (case py_print out
                  (ascii ''Found '' @ decimal (length files) @ ascii '' files in '' @ path) of
             Inl e \<Rightarrow> Inl e
           | Inr u \<Rightarrow>
               (case load_loop out files [] of
                  Inl e \<Rightarrow> Inl e
                | Inr pairs \<Rightarrow>
                    (case py_print out
                            (ascii ''Loaded '' @ decimal (length pairs) @ ascii '' name-uid pairs'') of
                       Inl e \<Rightarrow> Inl e
                     | Inr u \<Rightarrow> Inr pairs))))"

text \<open>
  What one entry of the listing contributes to the result, in the words of the
  specification: nothing unless it is a JSON file that loads and has a name, and then
  the pair of the name and the file name without its suffix. And whether the entry can
  be passed over in silence or with a diagnostic that standard output accepts.
\<close>

definition record_pairs :: "ustr \<times> snow_file \<Rightarrow> (ustr \<times> ustr) list" where
  "record_pairs entry =
     (case entry of (fname, f) \<Rightarrow>
        if is_json_name fname
        then (case load_try f of
                Inr (Some name) \<Rightarrow> [(name, take (length fname - 5) fname)]
              | _ \<Rightarrow> [])
        else [])"

definition load_quiet :: "stdout \<Rightarrow> ustr \<times> snow_file \<Rightarrow> bool" where
  "load_quiet out entry =
     (case entry of (fname, f) \<Rightarrow>
        if is_json_name fname
        then (case load_try f of
                Inl (e, msg) \<Rightarrow> print_ok out fname \<and> print_ok out msg
              | Inr r \<Rightarrow> True)
        else True)"


section \<open>\<^verbatim>\<open>bucket_by_letter\<close> and \<^verbatim>\<open>write_indexes\<close>\<close>

type_synonym bucket = "(ustr, ustr) pydict"

type_synonym buckets = "(ustr, bucket) pydict"

definition ascii_uppercase :: "ustr list" where
  "ascii_uppercase = map (\<lambda>c. [c]) [65..<91]"

definition DIGITS :: "ustr list" where
  "DIGITS = map (\<lambda>c. [c]) [48..<58]"

definition init_buckets :: buckets where
  "init_buckets =
     fold (\<lambda>d buckets. dict_set buckets d []) DIGITS (map (\<lambda>L. (L, [])) ascii_uppercase)"

fun bucket_loop :: "(ustr \<times> ustr) list \<Rightarrow> buckets \<Rightarrow> buckets" where
  "bucket_loop [] buckets = buckets"
| "bucket_loop ((name, uid) # rest) buckets =
     (if name = [] then bucket_loop rest buckets
      else
        (let first = py_upper [hd name] in
         case dict_get buckets first of
           None \<Rightarrow> bucket_loop rest buckets
         | Some b \<Rightarrow> bucket_loop rest (dict_set buckets first (dict_set b name uid))))"

definition bucket_by_letter :: "(ustr \<times> ustr) list \<Rightarrow> buckets" where
  "bucket_by_letter pairs = bucket_loop pairs init_buckets"







text \<open>
  What the claims say of the bucketer, in their own words: the key of a name is its
  upper-cased first character when that is one of the 36 keys.
\<close>

definition bucket_keys :: "ustr list" where
  "bucket_keys = ascii_uppercase @ DIGITS"

definition key_of :: "ustr \<Rightarrow> ustr option" where
  "key_of name =
     (if name \<noteq> [] \<and> py_upper [hd name] \<in> set bucket_keys
      then Some (py_upper [hd name]) else None)"

definition lookup2 :: "buckets \<Rightarrow> ustr \<Rightarrow> ustr \<Rightarrow> ustr option" where
  "lookup2 buckets k name =
     (case dict_get buckets k of None \<Rightarrow> None | Some b \<Rightarrow> dict_get b name)"


section \<open>\<^verbatim>\<open>compute_popular_tags\<close>\<close>

type_synonym counter = "(ustr, int) pydict"

text \<open>\<^verbatim>\<open>counter[k] += 1\<close> on a \<^verbatim>\<open>Counter\<close>, which reads a missing key as 0.\<close>

definition counter_get :: "counter \<Rightarrow> ustr \<Rightarrow> int" where
  "counter_get counter k = (case dict_get counter k of None \<Rightarrow> 0 | Some n \<Rightarrow> n)"

definition counter_incr :: "counter \<Rightarrow> ustr \<Rightarrow> counter" where
  "counter_incr counter k = dict_set counter k (counter_get counter k + 1)"

text \<open>Lines 109 to 113: the candidates of the \<^verbatim>\<open>tags\<close> field.\<close>

definition tags_items :: "json \<Rightarrow> ustr list" where
  "tags_items tags_field =
     (case tags_field of
        JArr ts \<Rightarrow> concat (map (\<lambda>t. case t of JStr s \<Rightarrow> [s] | _ \<Rightarrow> []) ts)
      | JStr s \<Rightarrow> map strip (split_on 44 s)
      | _ \<Rightarrow> [])"

text \<open>Lines 116 to 121: the loop over \<^verbatim>\<open>data.items()\<close>, appending to \<^verbatim>\<open>items\<close>.\<close>

fun key_loop :: "(ustr \<times> json) list \<Rightarrow> ustr list \<Rightarrow> ustr list" where
  "key_loop [] items = items"
| "key_loop ((k, v) # rest) items =
     (case v of
        JStr s \<Rightarrow>
          (let kl = py_lower k in
           if startswith kl (ascii ''tag'') \<and> py_isdigit (drop 3 kl)
           then key_loop rest (items @ [s])
           else key_loop rest items)
      | _ \<Rightarrow> key_loop rest items)"

text \<open>Lines 123 to 126: the loop over \<^verbatim>\<open>items\<close>, counting.\<close>

fun count_loop :: "ustr list \<Rightarrow> counter \<Rightarrow> counter" where
  "count_loop [] counter = counter"
| "count_loop (t # rest) counter =
     (let t_norm = py_lower (strip t) in
      if t_norm \<noteq> [] then count_loop rest (counter_incr counter t_norm)
      else count_loop rest counter)"

text \<open>
  Lines 107 to 126 for one parsed document. Nothing here is inside a \<^verbatim>\<open>try\<close>: a
  document that is not an object makes \<^verbatim>\<open>data.get\<close> raise out of the function.
\<close>

definition record_tags :: "json \<Rightarrow> counter \<Rightarrow> error + counter" where
  "record_tags data counter =
     (case py_get data (ascii ''tags'') (JArr []) of
        Inl (e, msg) \<Rightarrow> Inl e
      | Inr tags_field \<Rightarrow>
          (case data of
             JObj kvs \<Rightarrow> Inr (count_loop (key_loop kvs (tags_items tags_field)) counter)
           | _ \<Rightarrow> Inl AttributeError))"

text \<open>
  The loop of lines 98 to 126 over the files kept by line 97. The handler of lines 103
  to 105 prints, outside the \<^verbatim>\<open>try\<close>, then continues.
\<close>

definition tags_error_line :: "ustr \<Rightarrow> ustr \<Rightarrow> ustr" where
  "tags_error_line fname msg =
     ascii ''Error reading '' @ fname @ ascii '' for tags: '' @ msg"

fun scan_loop :: "stdout \<Rightarrow> listing \<Rightarrow> counter \<Rightarrow> error + counter" where
  "scan_loop out [] counter = Inr counter"
| "scan_loop out ((fname, f) # rest) counter =
     (case json_load f of
        Inl (e, msg) \<Rightarrow>
          (case py_print out (tags_error_line fname msg) of
             Inl e' \<Rightarrow> Inl e'
           | Inr u \<Rightarrow> scan_loop out rest counter)
      | Inr data \<Rightarrow>
          (case record_tags data counter of
             Inl e \<Rightarrow> Inl e
           | Inr counter' \<Rightarrow> scan_loop out rest counter'))"

text \<open>
  The \<^verbatim>\<open>limit\<close> argument: an \<^verbatim>\<open>int\<close>, or \<^verbatim>\<open>None\<close>, which \<^verbatim>\<open>int()\<close> rejects
  with a \<^verbatim>\<open>TypeError\<close>.
\<close>

datatype limit = LimInt int | LimNone

definition py_int :: "limit \<Rightarrow> error + int" where
  "py_int l = (case l of LimInt n \<Rightarrow> Inr n | LimNone \<Rightarrow> Inl TypeError)"

text \<open>Lines 128 to 134: the ranking of the counted tags.\<close>

definition sort_key_of :: "ustr \<times> int \<Rightarrow> int \<times> ustr" where
  "sort_key_of kv = (- snd kv, fst kv)"

definition rank_tags :: "counter \<Rightarrow> limit \<Rightarrow> error + ustr list" where
  "rank_tags counter lim =
     (if counter = [] then Inr []
      else
        (let items_sorted = sort_key sort_key_of counter in
         case py_int lim of
           Inl e \<Rightarrow> Inl e
         | Inr n \<Rightarrow> Inr (map fst (take (nat (max 0 n)) items_sorted))))"

text \<open>\<^verbatim>\<open>compute_popular_tags(path, limit)\<close>, lines 79 to 134.\<close>

definition compute_popular_tags :: "stdout \<Rightarrow> ustr \<Rightarrow> store \<Rightarrow> limit \<Rightarrow> error + ustr list" where
  "compute_popular_tags out path st lim =
     (case st of
        Absent \<Rightarrow>
          (case py_print out
                  (ascii ''Directory '' @ path @ ascii '' does not exist! Skipping popular tags.'') of
             Inl e \<Rightarrow> Inl e
           | Inr u \<Rightarrow> Inr [])
      | Unlistable e \<Rightarrow> Inl e
      | Listing listing \<Rightarrow>
          (let files = filter (\<lambda>(fname, f). is_json_name fname) listing in
           case scan_loop out files [] of
             Inl e \<Rightarrow> Inl e
           | Inr counter \<Rightarrow> rank_tags counter lim))"

text \<open>
  The ranking order in the words of the specification: the higher count first, and for
  equal counts the smaller tag first.
\<close>

definition precedes :: "counter \<Rightarrow> ustr \<Rightarrow> ustr \<Rightarrow> bool" where
  "precedes counter a b \<longleftrightarrow>
     counter_get counter a > counter_get counter b \<or>
     (counter_get counter a = counter_get counter b \<and> a < b)"

text \<open>
  The tag candidates of a record in the words of the specification: those of the
  aggregated field (the string elements of a list, the trimmed pieces between the commas
  of a string), then the string values of the fields whose key, lowered, is \<^verbatim>\<open>tag\<close>
  followed by one or more digits; each candidate trimmed, then lowered, and kept when
  something is left of it.
\<close>

definition is_tag_key :: "ustr \<Rightarrow> bool" where
  "is_tag_key k \<longleftrightarrow>
     take 3 (py_lower k) = ascii ''tag'' \<and> drop 3 (py_lower k) \<noteq> []
     \<and> list_all isdigit_cp (drop 3 (py_lower k))"

definition string_elements :: "json list \<Rightarrow> ustr list" where
  "string_elements ts = concat (map (\<lambda>t. case t of JStr s \<Rightarrow> [s] | _ \<Rightarrow> []) ts)"

definition spec_aggregated :: "(ustr \<times> json) list \<Rightarrow> ustr list" where
  "spec_aggregated kvs =
     (case dict_get kvs (ascii ''tags'') of
        Some (JArr ts) \<Rightarrow> string_elements ts
      | Some (JStr s) \<Rightarrow> map strip (split_on 44 s)
      | _ \<Rightarrow> [])"

definition spec_numbered :: "(ustr \<times> json) list \<Rightarrow> ustr list" where
  "spec_numbered kvs =
     concat (map (\<lambda>(k, v). case v of JStr s \<Rightarrow> (if is_tag_key k then [s] else []) | _ \<Rightarrow> []) kvs)"

definition normalize :: "ustr \<Rightarrow> ustr" where
  "normalize t = py_lower (strip t)"

definition spec_tags :: "(ustr \<times> json) list \<Rightarrow> ustr list" where
  "spec_tags kvs =
     filter (\<lambda>t. t \<noteq> []) (map normalize (spec_aggregated kvs @ spec_numbered kvs))"

text \<open>
  The normalized tags observed in a store: those of every JSON file that parses to an
  object.
\<close>

definition record_observed :: "ustr \<times> snow_file \<Rightarrow> ustr list" where
  "record_observed entry = (case snd entry of Doc (JObj kvs) \<Rightarrow> spec_tags kvs | _ \<Rightarrow> [])"

definition observed_tags :: "listing \<Rightarrow> ustr list" where
  "observed_tags listing =
     concat (map record_observed (filter (\<lambda>(fname, f). is_json_name fname) listing))"

text \<open>The complete ranking: every counted tag, in the order of line 132.\<close>

definition full_ranking :: "counter \<Rightarrow> ustr list" where
  "full_ranking counter = map fst (sort_key sort_key_of counter)"

section \<open>Dictionaries: basic facts\<close>

lemma dict_get_set: "dict_get (dict_set d k v) k' = (if k' = k then Some v else dict_get d k')"
  by (induction d) (auto simp: dict_get_def)

lemma keys_dict_set:
  "map fst (dict_set d k v) = (if k \<in> set (map fst d) then map fst d else map fst d @ [k])"
proof (induction d)
  case Nil
  show ?case by simp
next
  case (Cons a d)
  obtain k' v' where a: "a = (k', v')" by (cases a)
  show ?case using Cons.IH by (cases "k' = k") (simp_all add: a)
qed

lemma dict_get_None_iff: "dict_get d k = None \<longleftrightarrow> k \<notin> set (map fst d)"
  by (simp add: dict_get_def map_of_eq_None_iff)

lemma distinct_dict_set: "distinct (map fst d) \<Longrightarrow> distinct (map fst (dict_set d k v))"
  by (simp add: keys_dict_set)

lemma init_buckets_eq: "init_buckets = map (\<lambda>k. (k, [])) bucket_keys"
  by code_simp



lemma dict_get_init: "dict_get init_buckets k = (if k \<in> set bucket_keys then Some [] else None)"
proof -
  have "map_of (map (\<lambda>k. (k, v)) ks) k = (if k \<in> set ks then Some v else None)" for ks :: "ustr list" and v :: bucket
    by (induction ks) auto
  then show ?thesis
    unfolding init_buckets_eq dict_get_def by simp
qed

lemma keys_bucket_loop: "map fst (bucket_loop pairs b) = map fst b"
proof (induction pairs arbitrary: b)
  case Nil
  show ?case by simp
next
  case (Cons p pairs)
  obtain name uid where p: "p = (name, uid)" by (cases p)
  show ?case
  proof (cases "dict_get b (py_upper [hd name])")
    case None
    then show ?thesis by (simp add: p Cons.IH)
  next
    case (Some bk)
    then have "py_upper [hd name] \<in> set (map fst b)"
      using dict_get_None_iff [of b "py_upper [hd name]"] by simp
    then show ?thesis by (simp add: p Cons.IH Some keys_dict_set)
  qed
qed

lemma bucket_loop_append:
  "bucket_loop (ps @ qs) b = bucket_loop qs (bucket_loop ps b)"
  by (induction ps b rule: bucket_loop.induct) (auto simp: Let_def split: option.splits)

lemma inner_distinct_loop:
  "\<forall>k bk. dict_get b k = Some bk \<longrightarrow> distinct (map fst bk) \<Longrightarrow>
   dict_get (bucket_loop pairs b) k = Some bk \<Longrightarrow> distinct (map fst bk)"
proof (induction pairs arbitrary: b)
  case Nil
  then show ?case by simp
next
  case (Cons p pairs)
  obtain name uid where p: "p = (name, uid)" by (cases p)
  show ?case
  proof (cases "name \<noteq> [] \<and> dict_get b (py_upper [hd name]) \<noteq> None")
    case False
    then have "bucket_loop (p # pairs) b = bucket_loop pairs b"
      by (auto simp: p)
    with Cons show ?thesis by metis
  next
    case True
    then obtain b0 where b0: "dict_get b (py_upper [hd name]) = Some b0" by auto
    let ?b' = "dict_set b (py_upper [hd name]) (dict_set b0 name uid)"
    have step: "bucket_loop (p # pairs) b = bucket_loop pairs ?b'"
      using True b0 by (simp add: p)
    have "\<forall>k bk. dict_get ?b' k = Some bk \<longrightarrow> distinct (map fst bk)"
      using Cons.prems(1) b0 by (auto simp: dict_get_set distinct_dict_set)
    then show ?thesis
      using Cons.IH [of ?b'] Cons.prems(2) step by simp
  qed
qed

lemma map_of_filter_fst:
  "map_of (filter (\<lambda>p. P (fst p)) xs) k = (if P k then map_of xs k else None)"
  by (induction xs) auto

lemma map_of_snoc:
  "map_of (xs @ [(a, b)]) x =
     (case map_of xs x of Some u \<Rightarrow> Some u | None \<Rightarrow> if x = a then Some b else None)"
  by (induction xs) (auto split: option.splits)

lemma lookup2_bucket_loop:
  "lookup2 (bucket_loop pairs b) k name =
     (case dict_get b k of
        None \<Rightarrow> None
      | Some b0 \<Rightarrow>
          (case map_of (rev (filter (\<lambda>p. fst p \<noteq> [] \<and> py_upper [hd (fst p)] = k) pairs)) name of
             None \<Rightarrow> dict_get b0 name
           | Some u \<Rightarrow> Some u))"
proof (induction pairs arbitrary: b)
  case Nil
  show ?case by (simp add: lookup2_def split: option.splits)
next
  case (Cons p pairs)
  obtain n uid where p: "p = (n, uid)" by (cases p)
  show ?case
  proof (cases "n \<noteq> [] \<and> dict_get b (py_upper [hd n]) \<noteq> None")
    case False
    then have step: "bucket_loop (p # pairs) b = bucket_loop pairs b"
      by (auto simp: p)
    show ?thesis
      unfolding step Cons.IH using False
      by (auto simp: p split: option.splits)
  next
    case True
    then obtain b0 where b0: "dict_get b (py_upper [hd n]) = Some b0" by auto
    let ?b' = "dict_set b (py_upper [hd n]) (dict_set b0 n uid)"
    have step: "bucket_loop (p # pairs) b = bucket_loop pairs ?b'"
      using True b0 by (simp add: p)
    show ?thesis
      unfolding step Cons.IH using True b0
      by (auto simp: p dict_get_set map_of_snoc split: option.splits)
  qed
qed

lemma lookup2_bucket_by_letter:
  "lookup2 (bucket_by_letter pairs) k name =
     (if key_of name = Some k then map_of (rev pairs) name else None)"
proof -
  let ?P = "\<lambda>n. n \<noteq> [] \<and> py_upper [hd n] = k"
  have "map_of (rev (filter (\<lambda>p. ?P (fst p)) pairs)) name = (if ?P name then map_of (rev pairs) name else None)"
    using map_of_filter_fst [of ?P "rev pairs" name] by (simp add: rev_filter)
  then show ?thesis
    unfolding bucket_by_letter_def lookup2_bucket_loop dict_get_init
    by (auto simp: key_of_def dict_get_def split: option.splits)
qed



lemma bucket_keys_set:
  "set bucket_keys = {[c] | c. (65 \<le> c \<and> c \<le> 90) \<or> (48 \<le> c \<and> c \<le> 57)}"
proof -
  have "set bucket_keys = (\<lambda>c. [c]) ` ({65..<91} \<union> {48..<58})"
    unfolding bucket_keys_def ascii_uppercase_def DIGITS_def
    by (simp only: set_append set_map set_upt image_Un)
  also have "\<dots> = {[c] | c. (65 \<le> c \<and> c \<le> 90) \<or> (48 \<le> c \<and> c \<le> 57)}"
    by (auto simp: image_iff)
  finally show ?thesis .
qed

lemma keys_bucket_by_letter: "map fst (bucket_by_letter pairs) = bucket_keys"
  by (simp add: bucket_by_letter_def keys_bucket_loop init_buckets_eq comp_def)

lemma dict_get_bucket_by_letter:
  "k \<in> set bucket_keys \<Longrightarrow> \<exists>m. dict_get (bucket_by_letter pairs) k = Some m"
  using dict_get_None_iff [of "bucket_by_letter pairs" k] keys_bucket_by_letter [of pairs]
  by (cases "dict_get (bucket_by_letter pairs) k") auto



lemma map_of_rev_last:
  "name \<notin> fst ` set post \<Longrightarrow> map_of (rev (pre @ (name, uid) # post)) name = Some uid"
  by (simp add: map_add_def map_of_eq_None_iff [THEN iffD2] split: option.splits)

text \<open>
  Claim C8. When several pairs carry the same name, the bucket of that name maps it to
  the id of the last of them in processing order, and no bucket holds a name twice.
  The bucket of a pair depends on its name alone, so pairs with one name always meet in
  one bucket.
\<close>

theorem bucket_last_write_wins:
  "(pairs = pre @ (name, uid) # post \<and> name \<notin> fst ` set post \<and> key_of name = Some k
      \<longrightarrow> lookup2 (bucket_by_letter pairs) k name = Some uid)
   \<and> (dict_get (bucket_by_letter pairs) k = Some b \<longrightarrow> distinct (map fst b))"
proof -
  have "distinct (map fst b)" if "dict_get (bucket_by_letter pairs) k = Some b"
  proof -
    have "\<forall>k bk. dict_get init_buckets k = Some bk \<longrightarrow> distinct (map fst bk)"
      by (simp add: dict_get_init)
    then show ?thesis
      using inner_distinct_loop [of init_buckets pairs k b] that
      by (simp add: bucket_by_letter_def)
  qed
  then show ?thesis
    by (auto simp: lookup2_bucket_by_letter map_of_rev_last simp del: rev_append rev.simps)
qed

theorem bucket_last_write_wins_witness:
  "[(ascii ''Al'', ascii ''1''), (ascii ''Al'', ascii ''2'')] = [(ascii ''Al'', ascii ''1'')] @ (ascii ''Al'', ascii ''2'') # []
   \<and> ascii ''Al'' \<notin> fst ` set ([] :: (ustr \<times> ustr) list) \<and> key_of (ascii ''Al'') = Some (ascii ''A'')
   \<and> lookup2 (bucket_by_letter [(ascii ''Al'', ascii ''1''), (ascii ''Al'', ascii ''2'')]) (ascii ''A'') (ascii ''Al'') = Some (ascii ''2'')
   \<and> dict_get (bucket_by_letter [(ascii ''Al'', ascii ''1''), (ascii ''Al'', ascii ''2'')]) (ascii ''A'') = Some [(ascii ''Al'', ascii ''2'')]
   \<and> distinct (map fst [(ascii ''Al'', ascii ''2'')])"
proof -
  have k: "key_of (ascii ''Al'') = Some (ascii ''A'')"
    by code_simp
  have d: "dict_get (bucket_by_letter [(ascii ''Al'', ascii ''1''), (ascii ''Al'', ascii ''2'')]) (ascii ''A'') = Some [(ascii ''Al'', ascii ''2'')]"
    by code_simp
  show ?thesis
    using bucket_last_write_wins [of "[(ascii ''Al'', ascii ''1''), (ascii ''Al'', ascii ''2'')]"
        "[(ascii ''Al'', ascii ''1'')]" "ascii ''Al''" "ascii ''2''" "[]" "ascii ''A''" "[(ascii ''Al'', ascii ''2'')]"] k d
    by simp
qed

lemma bucket_by_letter_snoc:
  "bucket_by_letter (pairs @ [(name, uid)]) =
     (if name = [] then bucket_by_letter pairs
      else (case dict_get (bucket_by_letter pairs) (py_upper [hd name]) of
              None \<Rightarrow> bucket_by_letter pairs
            | Some b \<Rightarrow> dict_set (bucket_by_letter pairs) (py_upper [hd name]) (dict_set b name uid)))"
  by (simp add: bucket_by_letter_def bucket_loop_append Let_def split: option.splits)

lemma dict_get_bucket_by_letter_None:
  "k \<notin> set bucket_keys \<Longrightarrow> dict_get (bucket_by_letter pairs) k = None"
  using dict_get_None_iff [of "bucket_by_letter pairs" k] keys_bucket_by_letter [of pairs]
  by simp

text \<open>
  Claim C1. For every pair handed to \<^verbatim>\<open>bucket_by_letter\<close> after any earlier pairs,
  with \<open>first\<close> the upper-cased first character of the name: when \<open>first\<close> is one of
  the 36 keys the pair is stored in the bucket of \<open>first\<close>, where it is then found;
  otherwise (the name is empty, or \<open>first\<close> is no key) the buckets stay as they were.
  Consequently a name found in a bucket is non-empty and its upper-cased leading
  character is the key of that bucket, and a name whose upper-cased leading character
  is outside A to Z and 0 to 9 is found in no bucket.
\<close>

theorem bucket_assignment:
  "(name \<noteq> [] \<and> py_upper [hd name] \<in> set bucket_keys \<longrightarrow>
      (\<exists>b. dict_get (bucket_by_letter pairs) (py_upper [hd name]) = Some b
         \<and> bucket_by_letter (pairs @ [(name, uid)]) =
             dict_set (bucket_by_letter pairs) (py_upper [hd name]) (dict_set b name uid))
      \<and> lookup2 (bucket_by_letter (pairs @ [(name, uid)])) (py_upper [hd name]) name = Some uid)
   \<and> (name = [] \<or> py_upper [hd name] \<notin> set bucket_keys \<longrightarrow>
        bucket_by_letter (pairs @ [(name, uid)]) = bucket_by_letter pairs
        \<and> (\<forall>k. lookup2 (bucket_by_letter pairs) k name = None))
   \<and> (lookup2 (bucket_by_letter pairs) k name \<noteq> None \<longrightarrow>
        name \<noteq> [] \<and> py_upper [hd name] = k \<and> k \<in> set bucket_keys)"
proof -
  have ins: "(\<exists>b. dict_get (bucket_by_letter pairs) (py_upper [hd name]) = Some b
         \<and> bucket_by_letter (pairs @ [(name, uid)]) =
             dict_set (bucket_by_letter pairs) (py_upper [hd name]) (dict_set b name uid))
      \<and> lookup2 (bucket_by_letter (pairs @ [(name, uid)])) (py_upper [hd name]) name = Some uid"
    if n: "name \<noteq> []" and k: "py_upper [hd name] \<in> set bucket_keys"
  proof -
    obtain b where b: "dict_get (bucket_by_letter pairs) (py_upper [hd name]) = Some b"
      using dict_get_bucket_by_letter [OF k] by blast
    have "lookup2 (bucket_by_letter (pairs @ [(name, uid)])) (py_upper [hd name]) name = Some uid"
      using n k by (simp add: lookup2_bucket_by_letter key_of_def)
    with b n show ?thesis by (simp add: bucket_by_letter_snoc)
  qed
  have drop: "bucket_by_letter (pairs @ [(name, uid)]) = bucket_by_letter pairs
        \<and> (\<forall>k. lookup2 (bucket_by_letter pairs) k name = None)"
    if "name = [] \<or> py_upper [hd name] \<notin> set bucket_keys"
  proof -
    have "key_of name = None" using that by (auto simp: key_of_def)
    then have "\<forall>k. lookup2 (bucket_by_letter pairs) k name = None"
      by (simp add: lookup2_bucket_by_letter)
    moreover have "bucket_by_letter (pairs @ [(name, uid)]) = bucket_by_letter pairs"
      using that by (auto simp: bucket_by_letter_snoc dict_get_bucket_by_letter_None)
    ultimately show ?thesis by blast
  qed
  have only: "name \<noteq> [] \<and> py_upper [hd name] = k \<and> k \<in> set bucket_keys"
    if "lookup2 (bucket_by_letter pairs) k name \<noteq> None"
    using that by (auto simp: lookup2_bucket_by_letter key_of_def split: if_splits)
  from ins drop only show ?thesis by blast
qed

theorem bucket_assignment_witness:
  "(ascii ''alice'' \<noteq> [] \<and> py_upper [hd (ascii ''alice'')] \<in> set bucket_keys
     \<and> bucket_by_letter ([] @ [(ascii ''alice'', ascii ''7'')]) =
         dict_set (bucket_by_letter []) (ascii ''A'') [(ascii ''alice'', ascii ''7'')]
     \<and> lookup2 (bucket_by_letter ([] @ [(ascii ''alice'', ascii ''7'')])) (ascii ''A'') (ascii ''alice'') = Some (ascii ''7'')
     \<and> lookup2 (bucket_by_letter [(ascii ''alice'', ascii ''7'')]) (ascii ''A'') (ascii ''alice'') \<noteq> None)
   \<and> (py_upper [hd (ascii ''_x'')] \<notin> set bucket_keys
     \<and> bucket_by_letter ([(ascii ''alice'', ascii ''7'')] @ [(ascii ''_x'', ascii ''8'')]) = bucket_by_letter [(ascii ''alice'', ascii ''7'')]
     \<and> lookup2 (bucket_by_letter [(ascii ''alice'', ascii ''7''), (ascii ''_x'', ascii ''8'')]) (ascii ''A'') (ascii ''_x'') = None)"
proof -
  have a: "ascii ''alice'' \<noteq> []" "py_upper [hd (ascii ''alice'')] = ascii ''A''"
    by (simp_all add: ascii_def py_upper_def upper_cp_def)
  have ak: "ascii ''A'' \<in> set bucket_keys"
    by (simp add: bucket_keys_set ascii_def)
  have e: "dict_get (bucket_by_letter []) (ascii ''A'') = Some []"
    by (simp add: bucket_by_letter_def dict_get_init ak)
  have x: "py_upper [hd (ascii ''_x'')] \<notin> set bucket_keys"
    by (simp add: bucket_keys_set ascii_def py_upper_def upper_cp_def)
  have 1: "bucket_by_letter ([] @ [(ascii ''alice'', ascii ''7'')]) =
         dict_set (bucket_by_letter []) (ascii ''A'') [(ascii ''alice'', ascii ''7'')]
     \<and> lookup2 (bucket_by_letter ([] @ [(ascii ''alice'', ascii ''7'')])) (ascii ''A'') (ascii ''alice'') = Some (ascii ''7'')"
    using bucket_assignment [of "ascii ''alice''" "[]" "ascii ''7''" "ascii ''A''"] a ak e
    by auto
  have 2: "bucket_by_letter ([(ascii ''alice'', ascii ''7'')] @ [(ascii ''_x'', ascii ''8'')]) = bucket_by_letter [(ascii ''alice'', ascii ''7'')]"
    using bucket_assignment [of "ascii ''_x''" "[(ascii ''alice'', ascii ''7'')]" "ascii ''8''" "ascii ''A''"] x
    by blast
  have 3: "lookup2 (bucket_by_letter [(ascii ''alice'', ascii ''7''), (ascii ''_x'', ascii ''8'')]) (ascii ''A'') (ascii ''_x'') = None"
    using bucket_assignment [of "ascii ''_x''" "[(ascii ''alice'', ascii ''7''), (ascii ''_x'', ascii ''8'')]" "ascii ''8''" "ascii ''A''"] x
    by blast
  from 1 have "lookup2 (bucket_by_letter ([] @ [(ascii ''alice'', ascii ''7'')])) (ascii ''A'') (ascii ''alice'') = Some (ascii ''7'')"
    by blast
  then have 4: "lookup2 (bucket_by_letter [(ascii ''alice'', ascii ''7'')]) (ascii ''A'') (ascii ''alice'') \<noteq> None"
    unfolding append_Nil by simp
  have ak': "py_upper [hd (ascii ''alice'')] \<in> set bucket_keys"
    using a ak by simp
  from a(1) ak' x 1 2 3 4 show ?thesis by blast
qed

text \<open>
  The leading characters that have a bucket: the ASCII digits and letters of either
  case, and the two characters whose upper-case form is an ASCII letter.
\<close>

lemma upper_key_chars:
  "py_upper [c] \<in> set bucket_keys \<longleftrightarrow>
     (48 \<le> c \<and> c \<le> 57) \<or> (65 \<le> c \<and> c \<le> 90) \<or> (97 \<le> c \<and> c \<le> 122) \<or> c = 305 \<or> c = 383"
  by (auto simp: bucket_keys_set py_upper_def upper_cp_def)

section \<open>Strings and standard output: basic facts\<close>

subsection \<open>Printing\<close>

lemma print_ok_append [simp]: "print_ok out (a @ b) \<longleftrightarrow> print_ok out a \<and> print_ok out b"
  by (simp add: print_ok_def)

lemma print_ok_Nil [simp]: "print_ok out []"
  by (simp add: print_ok_def)

lemma print_ok_Cons: "print_ok out (c # s) \<longleftrightarrow> (c < 128 \<or> out c) \<and> print_ok out s"
  by (simp add: print_ok_def)

lemma print_ok_decimal [simp]: "print_ok out (decimal n)"
proof (induction n rule: decimal.induct)
  case (1 n)
  show ?case
  proof (cases "n < 10")
    case True
    then show ?thesis by (subst decimal.simps) (simp add: print_ok_Cons)
  next
    case False
    have "48 + n mod 10 < 128" by simp
    with False 1 show ?thesis by (subst decimal.simps) (simp add: print_ok_Cons)
  qed
qed

lemma print_ok_ascii_lower: "list_all (\<lambda>c. c < 128) s \<Longrightarrow> print_ok out s"
  by (induction s) (simp_all add: print_ok_Cons)

lemma print_ok_type_name [simp]: "print_ok out (type_name v)"
  by (cases v) (simp_all add: type_name_def ascii_def print_ok_Cons)

lemma print_error_line:
  "py_print out (error_line fname msg) =
     (if print_ok out fname \<and> print_ok out msg then Inr () else Inl UnicodeEncodeError)"
  by (simp add: py_print_def error_line_def ascii_def print_ok_Cons)

lemma print_tags_error_line:
  "py_print out (tags_error_line fname msg) =
     (if print_ok out fname \<and> print_ok out msg then Inr () else Inl UnicodeEncodeError)"
  by (simp add: py_print_def tags_error_line_def ascii_def print_ok_Cons)

lemma print_missing:
  "py_print out (ascii ''Directory '' @ path @ ascii '' does not exist!'') =
     (if print_ok out path then Inr () else Inl UnicodeEncodeError)"
  by (simp add: py_print_def ascii_def print_ok_Cons)

lemma print_missing_tags:
  "py_print out (ascii ''Directory '' @ path @ ascii '' does not exist! Skipping popular tags.'') =
     (if print_ok out path then Inr () else Inl UnicodeEncodeError)"
  by (simp add: py_print_def ascii_def print_ok_Cons)

lemma print_found:
  "py_print out (ascii ''Found '' @ decimal n @ ascii '' files in '' @ path) =
     (if print_ok out path then Inr () else Inl UnicodeEncodeError)"
  by (simp add: py_print_def ascii_def print_ok_Cons)

lemma print_loaded:
  "py_print out (ascii ''Loaded '' @ decimal n @ ascii '' name-uid pairs'') = Inr ()"
  by (simp add: py_print_def ascii_def print_ok_Cons)

lemma print_ok_no_attribute [simp]: "print_ok out (snd (no_attribute v (ascii ''get'')))"
  "print_ok out (snd (no_attribute v (ascii ''strip'')))"
  by (simp_all add: no_attribute_def ascii_def print_ok_Cons)

lemma print_ok_snow [simp]: "print_ok out SNOW_DIR"
  by (simp add: SNOW_DIR_def ascii_def print_ok_Cons)

subsection \<open>Lowering\<close>

lemma lower_lookup_below: "list_all (\<lambda>e. c < fst e) t \<Longrightarrow> lower_lookup t c = c"
  by (induction t c rule: lower_lookup.induct) simp_all

lemma lower_ranges_head: "lower_ranges = (65, 90, 1, 97) # tl lower_ranges"
  by (simp add: lower_ranges_def)

lemma lower_ranges_tail: "list_all (\<lambda>e. 128 \<le> fst e) (tl lower_ranges)"
  by (simp add: lower_ranges_def)

lemma lower_cp_ascii:
  assumes "c < 128"
  shows "lower_cp c = [if 65 \<le> c \<and> c \<le> 90 then c + 32 else c]"
proof -
  have "list_all (\<lambda>e. c < fst e) (tl lower_ranges)"
    using lower_ranges_tail assms by (auto simp: list_all_iff)
  then have "lower_lookup (tl lower_ranges) c = c"
    by (rule lower_lookup_below)
  then have "lower_lookup lower_ranges c = (if 65 \<le> c \<and> c \<le> 90 then c + 32 else c)"
    by (subst lower_ranges_head) auto
  with assms show ?thesis by (simp add: lower_cp_def)
qed

lemma lower_char_plain: "c \<noteq> 931 \<Longrightarrow> lower_char before c after = lower_cp c"
  by (simp add: lower_char_def)

lemma lower_ctx_plain: "931 \<notin> set s \<Longrightarrow> lower_ctx before s after = concat (map lower_cp s)"
  by (induction s arbitrary: before) (simp_all add: lower_char_plain)

lemma py_lower_ascii:
  assumes "list_all (\<lambda>c. c < 128) s"
  shows "py_lower s = map (\<lambda>c. if 65 \<le> c \<and> c \<le> 90 then c + 32 else c) s"
proof -
  from assms have "931 \<notin> set s" by (auto simp: list_all_iff)
  then have "py_lower s = concat (map lower_cp s)"
    by (simp add: py_lower_def lower_ctx_plain)
  also from assms have "\<dots> = map (\<lambda>c. if 65 \<le> c \<and> c \<le> 90 then c + 32 else c) s"
    by (induction s) (simp_all add: lower_cp_ascii)
  finally show ?thesis .
qed

lemma lower_ctx_append:
  "lower_ctx before (xs @ ys) after =
     lower_ctx before xs (ys @ after) @ lower_ctx (rev xs @ before) ys after"
  by (induction xs arbitrary: before) simp_all

lemma lower_ctx_sigma:
  "931 \<in> set s \<Longrightarrow> 962 \<in> set (lower_ctx before s after) \<or> 963 \<in> set (lower_ctx before s after)"
  by (induction s arbitrary: before) (auto simp: lower_char_def)

lemma lower_char_last:
  assumes "lower_char before c after = L @ [x]" and "x \<noteq> 962" "x \<noteq> 963" "x \<noteq> 775"
  shows "L = [] \<and> c \<noteq> 931 \<and> lower_cp c = [x]"
proof (cases "c = 931")
  case True
  with assms show ?thesis by (auto simp: lower_char_def split: if_splits)
next
  case False
  then have l: "lower_cp c = L @ [x]" using assms(1) by (simp add: lower_char_def)
  show ?thesis
  proof (cases "c = 304")
    case True
    with l have "[105, 775] = L @ [x]" by (simp add: lower_cp_def)
    then have "x = 775" by (metis last.simps last_snoc list.distinct(1))
    with assms(4) show ?thesis by simp
  next
    case False
    with l have "[lower_lookup lower_ranges c] = L @ [x]" by (simp add: lower_cp_def)
    then have "L = []" by (cases L) simp_all
    with l \<open>c \<noteq> 931\<close> show ?thesis by simp
  qed
qed

lemma lower_char_nonempty: "lower_char before c after \<noteq> []"
  by (simp add: lower_char_def lower_cp_def)

lemma lower_ctx_ends:
  "lower_ctx before s after = Q @ w \<Longrightarrow> \<forall>x \<in> set w. x \<noteq> 962 \<and> x \<noteq> 963 \<and> x \<noteq> 775 \<Longrightarrow>
   \<exists>s0 s1. s = s0 @ s1 \<and> length s1 = length w \<and> 931 \<notin> set s1
      \<and> concat (map lower_cp s1) = w \<and> lower_ctx before s0 (s1 @ after) = Q"
proof (induction w arbitrary: s after Q rule: rev_induct)
  case Nil
  then show ?case by simp
next
  case (snoc x w)
  from snoc.prems(1) have "s \<noteq> []" by auto
  then obtain s' c where s: "s = s' @ [c]" by (metis rev_exhaust)
  obtain L y where L: "lower_char (rev s' @ before) c after = L @ [y]"
    using lower_char_nonempty by (metis rev_exhaust)
  from snoc.prems(1) have eq: "lower_ctx before s' (c # after) @ L @ [y] = Q @ w @ [x]"
    by (simp add: s lower_ctx_append L)
  then have yx: "y = x" by (metis append_assoc last_snoc)
  from snoc.prems(2) have x: "x \<noteq> 962" "x \<noteq> 963" "x \<noteq> 775" by simp_all
  from lower_char_last [OF L [unfolded yx] x]
  have L0: "L = []" and c: "c \<noteq> 931" and lc: "lower_cp c = [x]" by simp_all
  from eq L0 yx have "lower_ctx before s' (c # after) = Q @ w" by simp
  moreover from snoc.prems(2) have "\<forall>x \<in> set w. x \<noteq> 962 \<and> x \<noteq> 963 \<and> x \<noteq> 775" by simp
  ultimately obtain s0 s1 where
    "s' = s0 @ s1" "length s1 = length w" "931 \<notin> set s1" "concat (map lower_cp s1) = w"
    "lower_ctx before s0 (s1 @ c # after) = Q"
    using snoc.IH by blast
  then have "s = s0 @ (s1 @ [c]) \<and> length (s1 @ [c]) = length (w @ [x]) \<and> 931 \<notin> set (s1 @ [c])
      \<and> concat (map lower_cp (s1 @ [c])) = w @ [x] \<and> lower_ctx before s0 ((s1 @ [c]) @ after) = Q"
    using s c lc by simp
  then show ?case by blast
qed

lemma json_suffix: "ascii ''.json'' = [46, 106, 115, 111, 110]"
  by (simp add: ascii_def)

lemma is_json_name_split:
  "is_json_name fname \<longleftrightarrow>
     (\<exists>stem suffix. fname = stem @ suffix \<and> length suffix = 5 \<and> py_lower suffix = ascii ''.json'')"
proof
  assume "is_json_name fname"
  then have "drop (length (py_lower fname) - length (ascii ''.json'')) (py_lower fname) = ascii ''.json''"
    by (simp only: is_json_name_def endswith_def)
  then have "py_lower fname =
      take (length (py_lower fname) - length (ascii ''.json'')) (py_lower fname) @ ascii ''.json''"
    using append_take_drop_id [of "length (py_lower fname) - length (ascii ''.json'')" "py_lower fname"]
    by simp
  then obtain Q where Q: "lower_ctx [] fname [] = Q @ ascii ''.json''"
    unfolding py_lower_def by blast
  have "\<forall>x \<in> set (ascii ''.json''). x \<noteq> 962 \<and> x \<noteq> 963 \<and> x \<noteq> 775"
    by (simp add: json_suffix)
  from lower_ctx_ends [OF Q this] obtain s0 s1 where
    s: "fname = s0 @ s1" "length s1 = length (ascii ''.json'')" "931 \<notin> set s1"
      "concat (map lower_cp s1) = ascii ''.json''"
    by blast
  then have "py_lower s1 = ascii ''.json''" "length s1 = 5"
    by (simp_all add: py_lower_def lower_ctx_plain json_suffix)
  with s(1) show "\<exists>stem suffix. fname = stem @ suffix \<and> length suffix = 5 \<and> py_lower suffix = ascii ''.json''"
    by blast
next
  assume "\<exists>stem suffix. fname = stem @ suffix \<and> length suffix = 5 \<and> py_lower suffix = ascii ''.json''"
  then obtain stem suffix where f: "fname = stem @ suffix" and l: "length suffix = 5"
    and p: "py_lower suffix = ascii ''.json''"
    by blast
  have ns: "931 \<notin> set suffix"
  proof
    assume "931 \<in> set suffix"
    from lower_ctx_sigma [OF this, of "[]" "[]"] p show False
      by (simp add: py_lower_def json_suffix)
  qed
  then have low: "lower_ctx b suffix a = ascii ''.json''" for b a
    using p by (simp add: py_lower_def lower_ctx_plain)
  have "py_lower fname = lower_ctx [] stem suffix @ ascii ''.json''"
    by (simp add: py_lower_def f lower_ctx_append low)
  then show "is_json_name fname"
    by (simp add: is_json_name_def endswith_def)
qed

lemma is_json_name_ascii:
  assumes "list_all (\<lambda>c. c < 128) fname"
  shows "is_json_name fname \<longleftrightarrow>
     5 \<le> length fname
     \<and> map (\<lambda>c. if 65 \<le> c \<and> c \<le> 90 then c + 32 else c) (drop (length fname - 5) fname)
         = [46, 106, 115, 111, 110]"
proof -
  have "length (ascii ''.json'') = 5" by (simp add: ascii_def)
  then show ?thesis
    unfolding is_json_name_def endswith_def py_lower_ascii [OF assms]
    by (simp only: length_map drop_map json_suffix)
qed

subsection \<open>Splitting and trimming\<close>

lemma split_on_nonempty: "split_on sep s \<noteq> []"
  by (induction s) (auto split: list.splits)

lemma join_Cons: "ps \<noteq> [] \<Longrightarrow> join sep (p # ps) = p @ sep # join sep ps"
  by (cases ps) simp_all

lemma join_split_on: "join sep (split_on sep s) = s"
proof (induction s)
  case Nil
  show ?case by simp
next
  case (Cons c s)
  obtain p ps where sp: "split_on sep s = p # ps"
    using split_on_nonempty [of sep s] by (cases "split_on sep s") auto
  show ?case
  proof (cases "c = sep")
    case True
    then show ?thesis using Cons.IH split_on_nonempty [of sep s] by (simp add: join_Cons)
  next
    case False
    have "join sep ((c # p) # ps) = c # join sep (p # ps)"
      by (cases ps) simp_all
    with False Cons.IH sp show ?thesis by simp
  qed
qed

lemma split_on_pieces: "p \<in> set (split_on sep s) \<Longrightarrow> sep \<notin> set p"
proof (induction s arbitrary: p)
  case Nil
  then show ?case by simp
next
  case (Cons c s)
  obtain q qs where sp: "split_on sep s = q # qs"
    using split_on_nonempty [of sep s] by (cases "split_on sep s") auto
  show ?case
  proof (cases "c = sep")
    case True
    with Cons show ?thesis by auto
  next
    case False
    with Cons.prems sp have "p = c # q \<or> p \<in> set qs" by simp
    then show ?thesis
    proof
      assume "p = c # q"
      moreover have "sep \<notin> set q" using Cons.IH [of q] sp by simp
      ultimately show ?thesis using False by simp
    next
      assume "p \<in> set qs"
      then show ?thesis using Cons.IH [of p] sp by simp
    qed
  qed
qed

lemma strip_parts:
  "\<exists>l r. s = l @ strip s @ r \<and> list_all py_isspace l \<and> list_all py_isspace r"
proof -
  let ?m = "dropWhile py_isspace s"
  have 1: "s = takeWhile py_isspace s @ ?m" by simp
  have 2: "rev ?m = takeWhile py_isspace (rev ?m) @ dropWhile py_isspace (rev ?m)" by simp
  then have "?m = strip s @ rev (takeWhile py_isspace (rev ?m))"
    unfolding strip_def by (metis rev_append rev_rev_ident)
  with 1 have "s = takeWhile py_isspace s @ strip s @ rev (takeWhile py_isspace (rev ?m))"
    by simp
  moreover have "list_all py_isspace (takeWhile py_isspace s)"
    by (simp add: list_all_iff) (meson set_takeWhileD)
  moreover have "list_all py_isspace (rev (takeWhile py_isspace (rev ?m)))"
    by (simp add: list_all_iff) (meson set_takeWhileD)
  ultimately show ?thesis by blast
qed

lemma strip_ends:
  assumes "strip s \<noteq> []"
  shows "\<not> py_isspace (hd (strip s)) \<and> \<not> py_isspace (last (strip s))"
proof -
  let ?m = "dropWhile py_isspace s"
  let ?t = "dropWhile py_isspace (rev ?m)"
  from assms have t: "?t \<noteq> []" by (simp add: strip_def)
  then have h: "\<not> py_isspace (hd ?t)" by (rule hd_dropWhile)
  from t have "last (strip s) = hd ?t" by (simp add: strip_def last_rev)
  with h have l: "\<not> py_isspace (last (strip s))" by simp
  have m: "?m \<noteq> []"
  proof
    assume "?m = []"
    then have "?t = []" by (simp only: rev.simps dropWhile.simps)
    with t show False by blast
  qed
  then have hm: "\<not> py_isspace (hd ?m)" by (rule hd_dropWhile)
  have "rev ?m = takeWhile py_isspace (rev ?m) @ ?t" by simp
  then have "?m = strip s @ rev (takeWhile py_isspace (rev ?m))"
    unfolding strip_def by (metis rev_append rev_rev_ident)
  with assms have "hd ?m = hd (strip s)" by (metis hd_append2)
  with hm l show ?thesis by simp
qed

subsection \<open>Evaluating the Unicode tables\<close>

lemma lower_examples:
  "py_lower (ascii ''Foo Bar'') = ascii ''foo bar''"
  "py_lower [201] = [233]"
  "py_lower [304] = [105, 775]"
  by (simp_all add: py_lower_def lower_char_def lower_cp_def lower_ranges_def ascii_def)

lemma sigma_examples:
  "py_lower [913, 931] = [945, 962]"
  "py_lower [931, 913] = [963, 945]"
proof -
  have i: "\<not> in_ranges case_ignorable_ranges 913"
    by (simp add: case_ignorable_ranges_def)
  have c: "in_ranges cased_ranges 913"
    by (simp add: cased_ranges_def)
  have l: "lower_cp 913 = [945]"
    by (simp add: lower_cp_def lower_ranges_def)
  show "py_lower [913, 931] = [945, 962]" "py_lower [931, 913] = [963, 945]"
    by (simp_all add: py_lower_def lower_char_def final_sigma_def i c l)
qed

lemma digit_examples:
  "isdigit_cp 50" "isdigit_cp 178" "isdigit_cp 1635" "\<not> isdigit_cp 97" "\<not> isdigit_cp 189"
  by (simp_all add: isdigit_cp_def digit_ranges_def)

section \<open>The loader\<close>

lemma load_try_object:
  "load_try (Doc (JObj kvs)) =
     (case dict_get kvs (ascii ''name'') of
        None \<Rightarrow> Inr None
      | Some (JStr s) \<Rightarrow> Inr (if strip s \<noteq> [] then Some (strip s) else None)
      | Some v \<Rightarrow> Inl (no_attribute v (ascii ''strip'')))"
  by (simp add: load_try_def json_load_def py_get_def strip_method_def strip_def
           split: option.splits json.splits)

lemma load_try_not_object:
  "(\<forall>kvs. d \<noteq> JObj kvs) \<Longrightarrow> load_try (Doc d) = Inl (no_attribute d (ascii ''get''))"
  by (cases d) (simp_all add: load_try_def json_load_def py_get_def)

lemma load_try_unreadable: "load_try (Unreadable e msg) = Inl (e, msg)"
  by (simp add: load_try_def json_load_def)

lemma load_step:
  "load_loop out ((fname, f) # rest) pairs =
     (if load_quiet out (fname, f) then load_loop out rest (pairs @ record_pairs (fname, f))
      else Inl UnicodeEncodeError)"
proof (cases "is_json_name fname")
  case False
  then show ?thesis by (simp add: load_quiet_def record_pairs_def)
next
  case True
  show ?thesis
  proof (cases "load_try f")
    case (Inl x)
    obtain e msg where x: "x = (e, msg)" by (cases x)
    show ?thesis
      by (simp add: True Inl x load_quiet_def record_pairs_def print_error_line)
  next
    case (Inr r)
    show ?thesis
      by (cases r) (simp_all add: True Inr load_quiet_def record_pairs_def)
  qed
qed

lemma load_loop_result:
  "load_loop out files pairs =
     (if list_all (load_quiet out) files then Inr (pairs @ concat (map record_pairs files))
      else Inl UnicodeEncodeError)"
proof (induction files arbitrary: pairs)
  case Nil
  show ?case by simp
next
  case (Cons entry files)
  obtain fname f where e: "entry = (fname, f)" by (cases entry)
  show ?case
    unfolding e load_step Cons.IH by simp
qed

lemma load_users_listing:
  "load_users out path (Listing files) =
     (if print_ok out path \<and> list_all (load_quiet out) files
      then Inr (concat (map record_pairs files))
      else Inl UnicodeEncodeError)"
  by (simp add: load_users_def print_found print_loaded load_loop_result)

lemma load_users_absent:
  "load_users out path Absent = (if print_ok out path then Inr [] else Inl UnicodeEncodeError)"
  by (simp add: load_users_def print_missing)

lemma record_pairs_object:
  "is_json_name fname \<Longrightarrow>
   record_pairs (fname, Doc (JObj kvs)) =
     (case dict_get kvs (ascii ''name'') of
        None \<Rightarrow> []
      | Some (JStr s) \<Rightarrow> (if strip s \<noteq> [] then [(strip s, take (length fname - 5) fname)] else [])
      | Some v \<Rightarrow> [])"
  by (simp add: record_pairs_def load_try_object split: option.splits json.splits)

lemma load_quiet_object:
  "is_json_name fname \<Longrightarrow>
   load_quiet out (fname, Doc (JObj kvs)) =
     (case dict_get kvs (ascii ''name'') of
        None \<Rightarrow> True
      | Some (JStr s) \<Rightarrow> True
      | Some v \<Rightarrow> print_ok out fname)"
  by (simp add: load_quiet_def load_try_object no_attribute_def ascii_def print_ok_Cons
        split: option.splits json.splits)

text \<open>
  Claim C4, as stated, fails: the name is not coerced to a string. A record whose
  \<^verbatim>\<open>name\<close> is the number 42 makes \<^verbatim>\<open>.strip()\<close> raise; the exception is caught and
  the record yields no pair, where the claim promises the pair of \<^verbatim>\<open>"42"\<close>.
\<close>

theorem name_not_coerced:
  "load_users utf8_strict SNOW_DIR
     (Listing [(ascii ''7.json'', Doc (JObj [(ascii ''name'', JNum 42)]))]) = Inr []"
proof -
  have j: "is_json_name (ascii ''7.json'')"
    by (simp add: is_json_name_ascii ascii_def)
  show ?thesis
    by (simp add: load_users_listing record_pairs_object [OF j] load_quiet_object [OF j]
          dict_get_def) (simp add: ascii_def print_ok_Cons)
qed

text \<open>
  Claim C4, amended. For every JSON file that parses to an object, wherever it stands in
  the listing, the result of the loader is the result for the files before it, then what
  the record gives, then the result for the files after it, an error at any of the three
  being the error of the whole. The record gives: for a \<^verbatim>\<open>name\<close> that is a string,
  the pair of the trimmed name and the id when the trimmed name is non-empty, and no
  pair when it is empty; no pair when the name is missing; and for a name that is not a
  string no pair either (and the handler's diagnostic, which needs a file name that
  standard output can encode).
\<close>

theorem load_users_name:
  "is_json_name fname \<Longrightarrow>
   load_users out path (Listing (pre @ (fname, Doc (JObj kvs)) # post)) =
     (case load_users out path (Listing pre) of
        Inl e \<Rightarrow> Inl e
      | Inr before \<Rightarrow>
          (case (case dict_get kvs (ascii ''name'') of
                   None \<Rightarrow> Inr []
                 | Some (JStr s) \<Rightarrow>
                     Inr (if strip s \<noteq> [] then [(strip s, take (length fname - 5) fname)] else [])
                 | Some v \<Rightarrow> (if print_ok out fname then Inr [] else Inl UnicodeEncodeError)) of
             Inl e \<Rightarrow> Inl e
           | Inr here \<Rightarrow>
               (case load_users out path (Listing post) of
                  Inl e \<Rightarrow> Inl e
                | Inr after \<Rightarrow> Inr (before @ here @ after))))"
proof -
  assume j: "is_json_name fname"
  show ?thesis
  proof (cases "dict_get kvs (ascii ''name'')")
    case None
    then show ?thesis
      by (simp add: load_users_listing record_pairs_object [OF j] load_quiet_object [OF j])
  next
    case (Some v)
    then show ?thesis
      by (cases v)
        (simp_all add: load_users_listing record_pairs_object [OF j] load_quiet_object [OF j])
  qed
qed

theorem load_users_name_witness:
  "is_json_name (ascii ''42.json'')
   \<and> load_users utf8_strict SNOW_DIR
        (Listing ([] @ (ascii ''42.json'', Doc (JObj [(ascii ''name'', JStr (ascii '' Alice ''))])) # []))
       = Inr [(ascii ''Alice'', ascii ''42'')]"
proof -
  have j: "is_json_name (ascii ''42.json'')"
    by (simp add: is_json_name_ascii ascii_def)
  have s: "strip (ascii '' Alice '') = ascii ''Alice''"
    by (simp add: strip_def ascii_def py_isspace_def)
  have g: "dict_get [(ascii ''name'', JStr (ascii '' Alice ''))] (ascii ''name'') = Some (JStr (ascii '' Alice ''))"
    by (simp add: dict_get_def)
  have n: "ascii ''Alice'' \<noteq> []" by (simp add: ascii_def)
  have u: "take (length (ascii ''42.json'') - 5) (ascii ''42.json'') = ascii ''42''" by (simp add: ascii_def)
  have e: "load_users utf8_strict SNOW_DIR (Listing []) = Inr []"
    by (simp add: load_users_listing)
  show ?thesis
    using load_users_name [OF j, of utf8_strict SNOW_DIR "[]" "[(ascii ''name'', JStr (ascii '' Alice ''))]" "[]"] j
    by (simp add: g s n u e)
qed

lemma load_quiet_printable:
  assumes "print_ok out fname" and "\<And>e msg. f = Unreadable e msg \<Longrightarrow> print_ok out msg"
  shows "load_quiet out (fname, f)"
proof (cases f)
  case (Unreadable e msg)
  with assms show ?thesis by (simp add: load_quiet_def load_try_unreadable)
next
  case (Doc d)
  show ?thesis
  proof (cases "\<exists>kvs. d = JObj kvs")
    case True
    then obtain kvs where "d = JObj kvs" by blast
    with assms(1) Doc show ?thesis
      by (simp add: load_quiet_def load_try_object no_attribute_def ascii_def print_ok_Cons
            split: option.splits json.splits)
  next
    case False
    with assms(1) Doc show ?thesis
      by (simp add: load_quiet_def load_try_not_object no_attribute_def ascii_def print_ok_Cons)
  qed
qed

text \<open>
  When standard output accepts the path, every file name and the text of every exception
  of opening and parsing, \<^verbatim>\<open>load_users\<close> returns a list: each entry whose \<^verbatim>\<open>try\<close>
  block raises is passed over, and the entries after it are processed.
\<close>

lemma load_users_printable:
  assumes "print_ok out path"
    and "\<And>fname f. (fname, f) \<in> set files \<Longrightarrow> print_ok out fname"
    and "\<And>fname e msg. (fname, Unreadable e msg) \<in> set files \<Longrightarrow> print_ok out msg"
  shows "load_users out path (Listing files) = Inr (concat (map record_pairs files))"
proof -
  have "load_quiet out entry" if "entry \<in> set files" for entry
  proof -
    obtain fname f where e: "entry = (fname, f)" by (cases entry)
    show ?thesis
      unfolding e using assms(2,3) that e by (intro load_quiet_printable) blast+
  qed
  then have "list_all (load_quiet out) files" by (simp add: list_all_iff)
  with assms(1) show ?thesis by (simp add: load_users_listing)
qed

lemma surrogate_name: "is_json_name ([56575] @ ascii ''.json'')"
proof -
  have "list_all (\<lambda>c. c < 128) (ascii ''.json'')" by (simp add: ascii_def)
  then have "py_lower (ascii ''.json'') = ascii ''.json''"
    by (simp add: py_lower_ascii) (simp add: ascii_def)
  moreover have "length (ascii ''.json'') = 5" by (simp add: ascii_def)
  ultimately show ?thesis using is_json_name_split by blast
qed

text \<open>
  Claim C9 holds of every store that standard output can describe (lemma
  \<open>load_users_printable\<close>), and fails of the code otherwise: the handler of line 38
  prints the file name at line 39, outside the \<^verbatim>\<open>try\<close>. For a file whose name holds
  a byte that is not UTF-8 (\<^verbatim>\<open>os.listdir\<close> gives the surrogate U+DCFF) and whose
  content is not JSON, the \<^verbatim>\<open>print\<close> raises \<^verbatim>\<open>UnicodeEncodeError\<close> under the
  default UTF-8 standard output; the exception leaves \<^verbatim>\<open>load_users\<close>, and the record
  after it, which loads by itself, is never reached.
\<close>

theorem handler_print_propagates:
  "load_users utf8_strict SNOW_DIR
     (Listing [([56575] @ ascii ''.json'',
                Unreadable JSONDecodeError (ascii ''Expecting value: line 1 column 1 (char 0)'')),
               (ascii ''b.json'', Doc (JObj [(ascii ''name'', JStr (ascii ''Bo''))]))])
     = Inl UnicodeEncodeError
   \<and> load_users utf8_strict SNOW_DIR
       (Listing [(ascii ''b.json'', Doc (JObj [(ascii ''name'', JStr (ascii ''Bo''))]))])
     = Inr [(ascii ''Bo'', ascii ''b'')]"
proof -
  have q: "\<not> load_quiet utf8_strict ([56575] @ ascii ''.json'',
      Unreadable JSONDecodeError (ascii ''Expecting value: line 1 column 1 (char 0)''))"
    using surrogate_name
    by (simp add: load_quiet_def load_try_unreadable print_ok_Cons utf8_strict_def)
  have j: "is_json_name (ascii ''b.json'')"
    by (simp add: is_json_name_ascii ascii_def)
  have s: "strip (ascii ''Bo'') = ascii ''Bo''" "ascii ''Bo'' \<noteq> []"
    by (simp_all add: strip_def ascii_def py_isspace_def)
  have u: "take (length (ascii ''b.json'') - 5) (ascii ''b.json'') = ascii ''b''"
    by (simp add: ascii_def)
  have 1: "load_users utf8_strict SNOW_DIR
     (Listing [([56575] @ ascii ''.json'',
                Unreadable JSONDecodeError (ascii ''Expecting value: line 1 column 1 (char 0)'')),
               (ascii ''b.json'', Doc (JObj [(ascii ''name'', JStr (ascii ''Bo''))]))])
     = Inl UnicodeEncodeError"
    using q by (simp add: load_users_listing)
  have 2: "load_users utf8_strict SNOW_DIR
       (Listing [(ascii ''b.json'', Doc (JObj [(ascii ''name'', JStr (ascii ''Bo''))]))])
     = Inr [(ascii ''Bo'', ascii ''b'')]"
    by (simp add: load_users_listing record_pairs_object [OF j] load_quiet_object [OF j]
          dict_get_def s u)
  from 1 2 show ?thesis by blast
qed

section \<open>The tag aggregator\<close>

lemma tag_key_test:
  "startswith (py_lower k) (ascii ''tag'') \<and> py_isdigit (drop 3 (py_lower k)) \<longleftrightarrow> is_tag_key k"
proof -
  have "length (ascii ''tag'') = 3" by (simp add: ascii_def)
  then show ?thesis
    by (simp add: startswith_def py_isdigit_def is_tag_key_def)
qed

lemma is_tag_key_words:
  "is_tag_key k \<longleftrightarrow>
     (\<exists>ds. py_lower k = ascii ''tag'' @ ds \<and> ds \<noteq> [] \<and> list_all isdigit_cp ds)"
proof
  assume "is_tag_key k"
  then have "py_lower k = ascii ''tag'' @ drop 3 (py_lower k) \<and> drop 3 (py_lower k) \<noteq> []
      \<and> list_all isdigit_cp (drop 3 (py_lower k))"
    using append_take_drop_id [of 3 "py_lower k"] by (simp add: is_tag_key_def)
  then show "\<exists>ds. py_lower k = ascii ''tag'' @ ds \<and> ds \<noteq> [] \<and> list_all isdigit_cp ds"
    by blast
next
  assume "\<exists>ds. py_lower k = ascii ''tag'' @ ds \<and> ds \<noteq> [] \<and> list_all isdigit_cp ds"
  then obtain ds where "py_lower k = ascii ''tag'' @ ds" "ds \<noteq> []" "list_all isdigit_cp ds"
    by blast
  moreover have "length (ascii ''tag'') = 3" by (simp add: ascii_def)
  ultimately show "is_tag_key k" by (simp add: is_tag_key_def)
qed

lemma key_loop_spec: "key_loop kvs items = items @ spec_numbered kvs"
proof (induction kvs arbitrary: items)
  case Nil
  show ?case by (simp add: spec_numbered_def)
next
  case (Cons kv kvs)
  obtain k v where kv: "kv = (k, v)" by (cases kv)
  have step: "spec_numbered (kv # kvs) =
      (case v of JStr s \<Rightarrow> (if is_tag_key k then [s] else []) | _ \<Rightarrow> []) @ spec_numbered kvs"
    by (simp add: spec_numbered_def kv)
  show ?case
    unfolding step by (cases v) (simp_all add: kv Cons.IH tag_key_test Let_def)
qed

lemma tags_items_spec:
  "tags_items (case dict_get kvs (ascii ''tags'') of None \<Rightarrow> JArr [] | Some v \<Rightarrow> v) = spec_aggregated kvs"
proof (cases "dict_get kvs (ascii ''tags'')")
  case None
  then show ?thesis by (simp add: tags_items_def spec_aggregated_def)
next
  case (Some v)
  then show ?thesis
    by (cases v) (simp_all add: tags_items_def spec_aggregated_def string_elements_def)
qed

lemma count_loop_spec:
  "count_loop ts counter =
     fold (\<lambda>t c. counter_incr c t) (filter (\<lambda>t. t \<noteq> []) (map normalize ts)) counter"
  by (induction ts arbitrary: counter) (simp_all add: normalize_def Let_def)

lemma counter_get_incr:
  "counter_get (counter_incr c k) t = (if t = k then counter_get c t + 1 else counter_get c t)"
  by (simp add: counter_get_def counter_incr_def dict_get_set)

lemma counter_get_fold:
  "counter_get (fold (\<lambda>t c. counter_incr c t) ts c) t = counter_get c t + int (count_list ts t)"
  by (induction ts arbitrary: c) (simp_all add: counter_get_incr)

lemma record_tags_object:
  "record_tags (JObj kvs) counter = Inr (fold (\<lambda>t c. counter_incr c t) (spec_tags kvs) counter)"
  by (simp add: record_tags_def py_get_def tags_items_spec key_loop_spec count_loop_spec spec_tags_def)

lemma string_elements_Cons:
  "string_elements (v # ts) = (case v of JStr s \<Rightarrow> s # string_elements ts | _ \<Rightarrow> string_elements ts)"
  by (cases v) (simp_all add: string_elements_def)

text \<open>
  Claim C3. For every record that is an object, the loops of lines 107 to 126 count
  exactly the candidates the specification names: those of the aggregated \<^verbatim>\<open>tags\<close>
  field (the string elements of a list, or the trimmed comma-separated pieces of a
  string), followed by the string values of the fields whose key, lowered, is
  \<^verbatim>\<open>tag\<close> followed by one or more digits; each candidate trimmed and lowered, the
  empty ones dropped, and the count of each surviving string raised by one per
  occurrence. The words are fixed by what they mean: the elements of a list that are
  strings are kept and the others passed over; the pieces of a string hold no comma and
  give the string back when joined with commas; trimming removes white space at both
  ends and nothing else.
\<close>

theorem record_tags_spec:
  "(\<exists>counter'. record_tags (JObj kvs) counter = Inr counter'
       \<and> counter' = fold (\<lambda>t c. counter_incr c t) (spec_tags kvs) counter
       \<and> (\<forall>t. counter_get counter' t = counter_get counter t + int (count_list (spec_tags kvs) t)))
   \<and> (is_tag_key k \<longleftrightarrow>
        (\<exists>ds. py_lower k = ascii ''tag'' @ ds \<and> ds \<noteq> [] \<and> list_all isdigit_cp ds))
   \<and> string_elements (v # ts) =
        (case v of JStr x \<Rightarrow> x # string_elements ts | _ \<Rightarrow> string_elements ts)
   \<and> join 44 (split_on 44 s) = s
   \<and> (\<forall>p \<in> set (split_on 44 s). 44 \<notin> set p)
   \<and> (\<exists>l r. s = l @ strip s @ r \<and> list_all py_isspace l \<and> list_all py_isspace r)
   \<and> (strip s \<noteq> [] \<longrightarrow> \<not> py_isspace (hd (strip s)) \<and> \<not> py_isspace (last (strip s)))"
proof (intro conjI)
  show "\<exists>counter'. record_tags (JObj kvs) counter = Inr counter'
       \<and> counter' = fold (\<lambda>t c. counter_incr c t) (spec_tags kvs) counter
       \<and> (\<forall>t. counter_get counter' t = counter_get counter t + int (count_list (spec_tags kvs) t))"
    by (simp add: record_tags_object counter_get_fold)
  show "is_tag_key k \<longleftrightarrow>
        (\<exists>ds. py_lower k = ascii ''tag'' @ ds \<and> ds \<noteq> [] \<and> list_all isdigit_cp ds)"
    by (rule is_tag_key_words)
  show "string_elements (v # ts) =
        (case v of JStr x \<Rightarrow> x # string_elements ts | _ \<Rightarrow> string_elements ts)"
    by (rule string_elements_Cons)
  show "join 44 (split_on 44 s) = s"
    by (rule join_split_on)
  show "\<forall>p \<in> set (split_on 44 s). 44 \<notin> set p"
    using split_on_pieces by blast
  show "\<exists>l r. s = l @ strip s @ r \<and> list_all py_isspace l \<and> list_all py_isspace r"
    by (rule strip_parts)
  show "strip s \<noteq> [] \<longrightarrow> \<not> py_isspace (hd (strip s)) \<and> \<not> py_isspace (last (strip s))"
    using strip_ends by blast
qed

text \<open>Evaluating the digit table, the key test and the normalization on examples.\<close>

lemma in_ranges_below: "list_all (\<lambda>e. c < fst e) t \<Longrightarrow> \<not> in_ranges t c"
  by (induction t c rule: in_ranges.induct) simp_all

lemma digit_ranges_head: "digit_ranges = (48, 57) # tl digit_ranges"
  by (simp add: digit_ranges_def)

lemma digit_ranges_tail: "list_all (\<lambda>e. 128 \<le> fst e) (tl digit_ranges)"
  by (simp add: digit_ranges_def)

lemma isdigit_cp_ascii:
  assumes "c < 128"
  shows "isdigit_cp c \<longleftrightarrow> 48 \<le> c \<and> c \<le> 57"
proof -
  have "list_all (\<lambda>e. c < fst e) (tl digit_ranges)"
    using digit_ranges_tail assms by (auto simp: list_all_iff)
  then have "\<not> in_ranges (tl digit_ranges) c"
    by (rule in_ranges_below)
  then show ?thesis
    unfolding isdigit_cp_def by (subst digit_ranges_head) simp
qed

lemma superscript_two: "lower_cp 178 = [178]" "isdigit_cp 178"
  by (simp_all add: lower_cp_def lower_ranges_def isdigit_cp_def digit_ranges_def)

lemma normalize_examples:
  "normalize (ascii ''Foo'') = ascii ''foo''"
  "normalize (ascii ''bar'') = ascii ''bar''"
  "normalize [] = []"
  "normalize [201] = [233]"
  "normalize (ascii ''X'') = ascii ''x''"
  "normalize (ascii ''x'') = ascii ''x''"
  "normalize (ascii '' foo '') = ascii ''foo''"
proof -
  have s: "strip (ascii ''Foo'') = ascii ''Foo''" "strip (ascii ''bar'') = ascii ''bar''"
    "strip [] = []" "strip [201] = [201]" "strip (ascii ''X'') = ascii ''X''"
    "strip (ascii ''x'') = ascii ''x''" "strip (ascii '' foo '') = ascii ''foo''"
    by (simp_all add: strip_def py_isspace_def ascii_def)
  have l: "py_lower (ascii ''Foo'') = ascii ''foo''" "py_lower (ascii ''bar'') = ascii ''bar''"
    "py_lower [] = []" "py_lower (ascii ''X'') = ascii ''x''" "py_lower (ascii ''x'') = ascii ''x''"
    "py_lower (ascii ''foo'') = ascii ''foo''"
    by (simp_all add: py_lower_ascii ascii_def)
  show "normalize (ascii ''Foo'') = ascii ''foo''" "normalize (ascii ''bar'') = ascii ''bar''"
    "normalize [] = []" "normalize [201] = [233]" "normalize (ascii ''X'') = ascii ''x''"
    "normalize (ascii ''x'') = ascii ''x''" "normalize (ascii '' foo '') = ascii ''foo''"
    by (simp_all only: normalize_def s l lower_examples)
qed

lemma split_example:
  "map strip (split_on 44 (ascii '' Foo ,bar,, '' @ [201])) = [ascii ''Foo'', ascii ''bar'', [], [201]]"
  by (simp add: strip_def py_isspace_def ascii_def)

lemma tag_key_examples:
  "is_tag_key (ascii ''tag1'')" "is_tag_key (ascii ''TAG'' @ [178])"
  "\<not> is_tag_key (ascii ''tagline'')" "\<not> is_tag_key (ascii ''tags'')" "\<not> is_tag_key (ascii ''name'')"
  "\<not> is_tag_key (ascii ''tag'')"
proof -
  have l: "py_lower (ascii ''tag1'') = ascii ''tag1''" "py_lower (ascii ''tagline'') = ascii ''tagline''"
    "py_lower (ascii ''tags'') = ascii ''tags''" "py_lower (ascii ''name'') = ascii ''name''"
    "py_lower (ascii ''tag'') = ascii ''tag''"
    by (simp_all add: py_lower_ascii ascii_def)
  have u: "py_lower (ascii ''TAG'' @ [178]) = ascii ''tag'' @ [178]"
    by (simp add: py_lower_def lower_char_def lower_cp_ascii superscript_two ascii_def)
  show "is_tag_key (ascii ''tag1'')" "\<not> is_tag_key (ascii ''tagline'')"
    "\<not> is_tag_key (ascii ''tags'')" "\<not> is_tag_key (ascii ''name'')" "\<not> is_tag_key (ascii ''tag'')"
    unfolding is_tag_key_def l by (simp_all add: isdigit_cp_ascii ascii_def)
  show "is_tag_key (ascii ''TAG'' @ [178])"
    unfolding is_tag_key_def u by (simp add: superscript_two ascii_def)
qed

theorem record_tags_spec_witness:
  "record_tags
     (JObj [(ascii ''name'', JStr (ascii ''7bot'')),
            (ascii ''tags'', JStr (ascii '' Foo ,bar,, '' @ [201])),
            (ascii ''tag1'', JStr (ascii ''X'')),
            (ascii ''TAG'' @ [178], JStr (ascii ''x'')),
            (ascii ''tagline'', JStr (ascii ''no'')),
            (ascii ''tag3'', JNum 5)]) []
     = Inr [(ascii ''foo'', 1), (ascii ''bar'', 1), ([233], 1), (ascii ''x'', 2)]
   \<and> record_tags
       (JObj [(ascii ''tags'', JArr [JStr (ascii ''Foo''), JNum 7, JStr (ascii '' foo ''), JStr []])])
       [(ascii ''foo'', 1)]
     = Inr [(ascii ''foo'', 3)]
   \<and> split_on 44 (ascii ''a,,b'') = [ascii ''a'', [], ascii ''b'']
   \<and> ascii ''a'' \<in> set (split_on 44 (ascii ''a,,b'')) \<and> 44 \<notin> set (ascii ''a'')
   \<and> strip (ascii '' Bar '') = ascii ''Bar''
   \<and> \<not> py_isspace (hd (strip (ascii '' Bar '')))"
proof -
  let ?R1 = "[(ascii ''name'', JStr (ascii ''7bot'')),
            (ascii ''tags'', JStr (ascii '' Foo ,bar,, '' @ [201])),
            (ascii ''tag1'', JStr (ascii ''X'')),
            (ascii ''TAG'' @ [178], JStr (ascii ''x'')),
            (ascii ''tagline'', JStr (ascii ''no'')),
            (ascii ''tag3'', JNum 5)]"
  let ?R2 = "[(ascii ''tags'', JArr [JStr (ascii ''Foo''), JNum 7, JStr (ascii '' foo ''), JStr []])]"
  have g1: "dict_get ?R1 (ascii ''tags'') = Some (JStr (ascii '' Foo ,bar,, '' @ [201]))"
    by (simp add: dict_get_def ascii_def)
  have a1: "spec_aggregated ?R1 = [ascii ''Foo'', ascii ''bar'', [], [201]]"
    by (simp only: spec_aggregated_def g1 option.case json.case split_example)
  have n1: "spec_numbered ?R1 = [ascii ''X'', ascii ''x'']"
    using tag_key_examples by (simp add: spec_numbered_def)
  have t1: "spec_tags ?R1 = [ascii ''foo'', ascii ''bar'', [233], ascii ''x'', ascii ''x'']"
    by (simp add: spec_tags_def a1 n1 normalize_examples) (simp add: ascii_def)
  have g2: "dict_get ?R2 (ascii ''tags'')
      = Some (JArr [JStr (ascii ''Foo''), JNum 7, JStr (ascii '' foo ''), JStr []])"
    by (simp add: dict_get_def)
  have a2: "spec_aggregated ?R2 = [ascii ''Foo'', ascii '' foo '', []]"
    by (simp add: spec_aggregated_def g2 string_elements_def)
  have n2: "spec_numbered ?R2 = []"
    by (simp add: spec_numbered_def)
  have t2: "spec_tags ?R2 = [ascii ''foo'', ascii ''foo'']"
    by (simp add: spec_tags_def a2 n2 normalize_examples) (simp add: ascii_def)
  have f1: "fold (\<lambda>t c. counter_incr c t) [ascii ''foo'', ascii ''bar'', [233], ascii ''x'', ascii ''x''] []
      = [(ascii ''foo'', 1), (ascii ''bar'', 1), ([233], 1), (ascii ''x'', 2)]"
    by (simp add: counter_incr_def counter_get_def dict_get_def ascii_def)
  have f2: "fold (\<lambda>t c. counter_incr c t) [ascii ''foo'', ascii ''foo''] [(ascii ''foo'', 1)]
      = [(ascii ''foo'', 3)]"
    by (simp add: counter_incr_def counter_get_def dict_get_def ascii_def)
  note i1 = record_tags_spec [of ?R1 "[]" "ascii ''tag1''" "JNum 7" "[]" "ascii ''a,,b''"]
  note i2 = record_tags_spec [of ?R2 "[(ascii ''foo'', 1)]" "ascii ''tag1''" "JNum 7" "[]" "ascii '' Bar ''"]
  from i1 have r1: "record_tags (JObj ?R1) [] = Inr (fold (\<lambda>t c. counter_incr c t) (spec_tags ?R1) [])"
    by (elim conjE exE) simp
  from i2 have r2: "record_tags (JObj ?R2) [(ascii ''foo'', 1)]
      = Inr (fold (\<lambda>t c. counter_incr c t) (spec_tags ?R2) [(ascii ''foo'', 1)])"
    by (elim conjE exE) simp
  have sp: "split_on 44 (ascii ''a,,b'') = [ascii ''a'', [], ascii ''b'']"
    by (simp add: ascii_def)
  have pm: "ascii ''a'' \<in> set (split_on 44 (ascii ''a,,b''))"
    unfolding sp by simp
  with i1 have pc: "44 \<notin> set (ascii ''a'')"
    by (elim conjE) blast
  have st: "strip (ascii '' Bar '') = ascii ''Bar''"
    by (simp add: strip_def py_isspace_def ascii_def)
  then have "strip (ascii '' Bar '') \<noteq> []" by (simp add: ascii_def)
  with i2 have hd: "\<not> py_isspace (hd (strip (ascii '' Bar '')))"
    by (elim conjE) blast
  from r1 r2 sp pm pc st hd show ?thesis
    unfolding t1 t2 f1 f2 by (intro conjI)
qed

section \<open>The tag ranker\<close>

lemma inj_sort_key_of: "inj sort_key_of"
  by (auto simp: inj_def sort_key_of_def prod_eq_iff)

lemma inj_on_sort_key_of: "inj_on sort_key_of A"
  using inj_sort_key_of by (rule inj_on_subset) simp

lemma distinct_sorted_keys:
  "distinct counter \<Longrightarrow> distinct (map sort_key_of (sort_key sort_key_of counter))"
  by (simp add: distinct_map inj_on_sort_key_of)

lemma counter_get_mem:
  "distinct (map fst counter) \<Longrightarrow> (t, n) \<in> set counter \<Longrightarrow> counter_get counter t = n"
  by (simp add: counter_get_def dict_get_def)

lemma key_less_precedes:
  assumes "distinct (map fst counter)" "x \<in> set counter" "y \<in> set counter"
    and "sort_key_of x < sort_key_of y"
  shows "precedes counter (fst x) (fst y)"
proof -
  have "counter_get counter (fst x) = snd x" "counter_get counter (fst y) = snd y"
    using assms(1-3) counter_get_mem [of counter "fst x" "snd x"] counter_get_mem [of counter "fst y" "snd y"]
    by simp_all
  with assms(4) show ?thesis
    by (auto simp: precedes_def sort_key_of_def less_prod_def)
qed

lemma rank_tags_int:
  "rank_tags counter (LimInt n) = Inr (take (nat (max 0 n)) (full_ranking counter))"
  by (simp add: rank_tags_def full_ranking_def py_int_def take_map)

lemma length_full_ranking: "length (full_ranking counter) = length counter"
  by (simp add: full_ranking_def)

lemma set_full_ranking: "set (full_ranking counter) = fst ` set counter"
  by (simp add: full_ranking_def)

lemma distinct_full_ranking:
  assumes "distinct (map fst counter)"
  shows "distinct (full_ranking counter)"
proof -
  from assms have "distinct counter" "inj_on fst (set counter)"
    by (simp_all add: distinct_map)
  then show ?thesis
    by (simp add: full_ranking_def distinct_map)
qed

lemma sorted_full_ranking:
  assumes "distinct (map fst counter)"
  shows "sorted_wrt (precedes counter) (full_ranking counter)"
proof -
  let ?S = "sort_key sort_key_of counter"
  from assms have "distinct counter" by (simp add: distinct_map)
  then have "distinct (map sort_key_of ?S)"
    by (rule distinct_sorted_keys)
  moreover have "sorted (map sort_key_of ?S)" by simp
  ultimately have "sorted_wrt (<) (map sort_key_of ?S)"
    by (simp add: strict_sorted_iff)
  then have "sorted_wrt (\<lambda>x y. sort_key_of x < sort_key_of y) ?S"
    by (simp add: sorted_wrt_map)
  then have "sorted_wrt (\<lambda>x y. precedes counter (fst x) (fst y)) ?S"
    by (rule sorted_wrt_mono_rel [rotated]) (simp add: key_less_precedes [OF assms])
  then show ?thesis
    by (simp add: full_ranking_def sorted_wrt_map)
qed

lemma precedes_asym: "\<not> (precedes counter a b \<and> precedes counter b a)"
  by (auto simp: precedes_def)

lemma precedes_total: "a \<noteq> b \<Longrightarrow> precedes counter a b \<or> precedes counter b a"
  by (auto simp: precedes_def)

lemma precedes_trans: "precedes counter a b \<Longrightarrow> precedes counter b d \<Longrightarrow> precedes counter a d"
  by (auto simp: precedes_def)

lemma full_ranking_unique:
  assumes "distinct (map fst counter)" "distinct (map fst counter')" "set counter' = set counter"
  shows "full_ranking counter' = full_ranking counter"
proof -
  let ?S = "sort_key sort_key_of counter" and ?S' = "sort_key sort_key_of counter'"
  from assms(1,2) have "distinct counter" "distinct counter'"
    by (simp_all add: distinct_map)
  then have d: "distinct (map sort_key_of ?S)" "distinct (map sort_key_of ?S')"
    by (simp_all only: distinct_sorted_keys)
  have "set (map sort_key_of ?S') = set (map sort_key_of ?S)"
    using assms(3) by simp
  then have "map sort_key_of ?S' = map sort_key_of ?S"
    using d by (intro sorted_distinct_set_unique) simp_all
  then have "?S' = ?S"
    using inj_sort_key_of by simp
  then show ?thesis by (simp add: full_ranking_def)
qed

lemma take_closed:
  assumes s: "sorted_wrt P xs" and asym: "\<And>a b. \<not> (P a b \<and> P b a)"
    and b: "b \<in> set (take n xs)" and a: "a \<in> set xs" and p: "P a b"
  shows "a \<in> set (take n xs)"
proof -
  from b obtain j where j: "j < length xs" "j < n" "xs ! j = b"
    by (auto simp: in_set_conv_nth)
  from a obtain i where i: "i < length xs" "xs ! i = a"
    by (auto simp: in_set_conv_nth)
  have "i < j"
  proof (rule ccontr)
    assume "\<not> i < j"
    then consider "i = j" | "j < i" by linarith
    then show False
    proof cases
      case 1
      with i j p asym show False by auto
    next
      case 2
      then have "P b a" using s i j sorted_wrt_nth_less by blast
      with p asym show False by blast
    qed
  qed
  with j i have "i < length (take n xs)" "take n xs ! i = a" by simp_all
  then show ?thesis by (metis nth_mem)
qed

lemma position_order:
  assumes s: "sorted_wrt P xs" and asym: "\<And>a b. \<not> (P a b \<and> P b a)"
    and "i < length xs" "j < length xs" "P (xs ! i) (xs ! j)"
  shows "i < j"
proof (rule ccontr)
  assume "\<not> i < j"
  then consider "i = j" | "j < i" by linarith
  then show False
  proof cases
    case 1
    with assms show False by auto
  next
    case 2
    then have "P (xs ! j) (xs ! i)" using s assms(3) sorted_wrt_nth_less by blast
    with assms(5) asym show False by blast
  qed
qed

lemma keys_counter_incr:
  "map fst (counter_incr c k) = (if k \<in> set (map fst c) then map fst c else map fst c @ [k])"
  by (simp only: counter_incr_def keys_dict_set)

lemma fold_incr_keys:
  "distinct (map fst c) \<Longrightarrow>
   distinct (map fst (fold (\<lambda>t c. counter_incr c t) ts c))
   \<and> set (map fst (fold (\<lambda>t c. counter_incr c t) ts c)) = set (map fst c) \<union> set ts"
proof (induction ts arbitrary: c)
  case Nil
  then show ?case by simp
next
  case (Cons t ts)
  have d: "distinct (map fst (counter_incr c t))"
    using Cons.prems by (simp only: keys_counter_incr) simp
  have s: "set (map fst (counter_incr c t)) = insert t (set (map fst c))"
    by (simp only: keys_counter_incr) auto
  from Cons.IH [OF d] s show ?case by auto
qed

lemma record_tags_not_object:
  "(\<forall>kvs. d \<noteq> JObj kvs) \<Longrightarrow> record_tags d counter = Inl AttributeError"
  by (cases d) (simp_all add: record_tags_def py_get_def no_attribute_def)

lemma scan_loop_keys:
  "scan_loop out files c = Inr c' \<Longrightarrow> distinct (map fst c) \<Longrightarrow>
   distinct (map fst c') \<and> set (map fst c') = set (map fst c) \<union> set (concat (map record_observed files))"
proof (induction files arbitrary: c)
  case Nil
  then show ?case by simp
next
  case (Cons entry files)
  obtain fname f where e: "entry = (fname, f)" by (cases entry)
  show ?case
  proof (cases f)
    case (Unreadable err msg)
    have "scan_loop out files c = Inr c'"
    proof (cases "print_ok out fname \<and> print_ok out msg")
      case True
      with Cons.prems(1) show ?thesis
        by (simp add: e Unreadable json_load_def print_tags_error_line)
    next
      case False
      with Cons.prems(1) show ?thesis
        by (simp add: e Unreadable json_load_def print_tags_error_line)
    qed
    moreover have "record_observed entry = []"
      by (simp add: e Unreadable record_observed_def)
    ultimately show ?thesis
      using Cons.IH [of c] Cons.prems(2) by simp
  next
    case (Doc d)
    show ?thesis
    proof (cases "\<exists>kvs. d = JObj kvs")
      case False
      then have "record_tags d c = Inl AttributeError"
        by (simp add: record_tags_not_object)
      with Cons.prems(1) show ?thesis by (simp add: e Doc json_load_def)
    next
      case True
      then obtain kvs where kvs: "d = JObj kvs" by blast
      let ?c1 = "fold (\<lambda>t c. counter_incr c t) (spec_tags kvs) c"
      have step: "scan_loop out files ?c1 = Inr c'"
        using Cons.prems(1) by (simp add: e Doc kvs json_load_def record_tags_object)
      have obs: "record_observed entry = spec_tags kvs"
        by (simp add: e Doc kvs record_observed_def)
      from fold_incr_keys [OF Cons.prems(2), of "spec_tags kvs"]
      have d1: "distinct (map fst ?c1)"
        and s1: "set (map fst ?c1) = set (map fst c) \<union> set (spec_tags kvs)"
        by blast+
      from Cons.IH [OF step d1] s1 obs show ?thesis by auto
    qed
  qed
qed

lemma compute_single_object:
  "is_json_name fname \<Longrightarrow>
   compute_popular_tags out path (Listing [(fname, Doc (JObj kvs))]) lim =
     rank_tags (fold (\<lambda>t c. counter_incr c t) (spec_tags kvs) []) lim"
  by (simp add: compute_popular_tags_def json_load_def record_tags_object)

lemma length_rank_le:
  assumes "0 \<le> n" "distinct (map fst counter)"
  shows "int (length (take (nat (max 0 n)) (full_ranking counter))) \<le> n
     \<and> length (take (nat (max 0 n)) (full_ranking counter)) \<le> card (fst ` set counter)"
proof -
  have "card (fst ` set counter) = length counter"
    using assms(2) distinct_card [of "map fst counter"] by simp
  with assms(1) show ?thesis by (simp add: length_full_ranking)
qed

text \<open>
  Claim C2. For every tag-count mapping (a dictionary, so its keys are distinct) and
  every integer limit: the ranked output is a prefix of the complete ranking and holds
  no tag twice; of two tags in the output, the one with the higher count, or with the
  same count and the smaller tag string, stands first; a tag that precedes a tag of the
  output in this order is in the output as well; the order is total on distinct tags,
  asymmetric and transitive; and the output depends only on the set of (tag, count)
  items, not on the order in which they were inserted.
\<close>

theorem rank_order:
  assumes "distinct (map fst counter)"
  shows "\<exists>ranked. rank_tags counter (LimInt n) = Inr ranked
    \<and> ranked = take (nat (max 0 n)) (full_ranking counter)
    \<and> distinct ranked \<and> set ranked \<subseteq> fst ` set counter
    \<and> (int (length counter) \<le> n \<longrightarrow> set ranked = fst ` set counter)
    \<and> (\<forall>t c. (t, c) \<in> set counter \<longrightarrow> counter_get counter t = c)
    \<and> (\<forall>i j. i < length ranked \<and> j < length ranked
           \<and> precedes counter (ranked ! i) (ranked ! j) \<longrightarrow> i < j)
    \<and> (\<forall>a b. b \<in> set ranked \<and> a \<in> fst ` set counter \<and> precedes counter a b \<longrightarrow> a \<in> set ranked)
    \<and> (\<forall>a b. a \<noteq> b \<longrightarrow> precedes counter a b \<or> precedes counter b a)
    \<and> (\<forall>a b. \<not> (precedes counter a b \<and> precedes counter b a))
    \<and> (\<forall>a b d. precedes counter a b \<and> precedes counter b d \<longrightarrow> precedes counter a d)
    \<and> (\<forall>counter'. distinct (map fst counter') \<and> set counter' = set counter
           \<longrightarrow> rank_tags counter' (LimInt n) = Inr ranked)"
proof -
  let ?m = "nat (max 0 n)"
  let ?r = "take ?m (full_ranking counter)"
  have srt: "sorted_wrt (precedes counter) ?r"
    using sorted_full_ranking [OF assms] by simp
  have 1: "rank_tags counter (LimInt n) = Inr ?r" by (rule rank_tags_int)
  have 2: "distinct ?r" using distinct_full_ranking [OF assms] by simp
  have 3: "set ?r \<subseteq> fst ` set counter"
    using set_take_subset [of ?m "full_ranking counter"] by (simp add: set_full_ranking)
  have 4: "set ?r = fst ` set counter" if "int (length counter) \<le> n"
    using that by (simp add: length_full_ranking set_full_ranking)
  have 5: "counter_get counter t = c" if "(t, c) \<in> set counter" for t c
    using counter_get_mem [OF assms that] .
  have 6: "i < j" if "i < length ?r \<and> j < length ?r \<and> precedes counter (?r ! i) (?r ! j)" for i j
    using position_order [OF srt precedes_asym, of i j] that by blast
  have 7: "a \<in> set ?r" if "b \<in> set ?r \<and> a \<in> fst ` set counter \<and> precedes counter a b" for a b
    using take_closed [OF sorted_full_ranking [OF assms] precedes_asym, of b ?m a] that
    by (simp add: set_full_ranking)
  have 8: "rank_tags counter' (LimInt n) = Inr ?r"
    if "distinct (map fst counter') \<and> set counter' = set counter" for counter'
    using full_ranking_unique [OF assms, of counter'] that by (simp add: rank_tags_int)
  show ?thesis
  proof (intro exI [of _ ?r] conjI allI impI)
    show "rank_tags counter (LimInt n) = Inr ?r" by (rule 1)
    show "?r = ?r" by (rule refl)
    show "distinct ?r" by (rule 2)
    show "set ?r \<subseteq> fst ` set counter" by (rule 3)
    show "set ?r = fst ` set counter" if "int (length counter) \<le> n"
      using that by (rule 4)
    show "counter_get counter t = c" if "(t, c) \<in> set counter" for t c
      using that by (rule 5)
    show "i < j" if "i < length ?r \<and> j < length ?r \<and> precedes counter (?r ! i) (?r ! j)" for i j
      using that by (rule 6)
    show "a \<in> set ?r" if "b \<in> set ?r \<and> a \<in> fst ` set counter \<and> precedes counter a b" for a b
      using that by (rule 7)
    show "precedes counter a b \<or> precedes counter b a" if "a \<noteq> b" for a b
      using that by (rule precedes_total)
    show "\<not> (precedes counter a b \<and> precedes counter b a)" for a b
      by (rule precedes_asym)
    show "precedes counter a d" if "precedes counter a b \<and> precedes counter b d" for a b d
      using that precedes_trans by blast
    show "rank_tags counter' (LimInt n) = Inr ?r"
      if "distinct (map fst counter') \<and> set counter' = set counter" for counter'
      using that by (rule 8)
  qed
qed

text \<open>A ranking of three tags, two of them with the same count.\<close>

lemma example_ranking:
  "full_ranking [(ascii ''b'', 2), (ascii ''a'', 2), (ascii ''c'', 5)] = [ascii ''c'', ascii ''a'', ascii ''b'']"
  by (simp add: full_ranking_def sort_key_of_def ascii_def less_eq_prod_def)

theorem rank_order_witness:
  "distinct (map fst [(ascii ''b'', 2::int), (ascii ''a'', 2), (ascii ''c'', 5)])
   \<and> rank_tags [(ascii ''b'', 2), (ascii ''a'', 2), (ascii ''c'', 5)] (LimInt 2) = Inr [ascii ''c'', ascii ''a'']
   \<and> (ascii ''a'', 2) \<in> set [(ascii ''b'', 2::int), (ascii ''a'', 2), (ascii ''c'', 5)]
   \<and> counter_get [(ascii ''b'', 2), (ascii ''a'', 2), (ascii ''c'', 5)] (ascii ''a'') = 2
   \<and> distinct (map fst [(ascii ''c'', 5::int), (ascii ''b'', 2), (ascii ''a'', 2)])
   \<and> set [(ascii ''c'', 5::int), (ascii ''b'', 2), (ascii ''a'', 2)]
       = set [(ascii ''b'', 2), (ascii ''a'', 2), (ascii ''c'', 5)]
   \<and> rank_tags [(ascii ''c'', 5), (ascii ''b'', 2), (ascii ''a'', 2)] (LimInt 2) = Inr [ascii ''c'', ascii ''a'']"
proof -
  let ?C = "[(ascii ''b'', 2::int), (ascii ''a'', 2), (ascii ''c'', 5)]"
  let ?C' = "[(ascii ''c'', 5::int), (ascii ''b'', 2), (ascii ''a'', 2)]"
  have d: "distinct (map fst ?C)" by (simp add: ascii_def)
  have d': "distinct (map fst ?C')" by (simp add: ascii_def)
  have s: "set ?C' = set ?C" by auto
  have m: "(ascii ''a'', 2) \<in> set ?C" by simp
  from rank_order [OF d, of 2] obtain ranked where
    r: "rank_tags ?C (LimInt 2) = Inr ranked"
    and t: "ranked = take (nat (max 0 2)) (full_ranking ?C)"
    and g: "\<forall>t c. (t, c) \<in> set ?C \<longrightarrow> counter_get ?C t = c"
    and u: "\<forall>counter'. distinct (map fst counter') \<and> set counter' = set ?C
           \<longrightarrow> rank_tags counter' (LimInt 2) = Inr ranked"
    by (elim exE conjE) (rule that; assumption)
  from t have e: "ranked = [ascii ''c'', ascii ''a'']"
    by (simp add: example_ranking)
  from g m have c: "counter_get ?C (ascii ''a'') = 2" by blast
  from u d' s have "rank_tags ?C' (LimInt 2) = Inr ranked" by blast
  with r e c d d' s m show ?thesis by simp
qed

text \<open>
  Claim C5, as stated, fails for a limit that is not a number: \<^verbatim>\<open>int(None)\<close> raises
  \<^verbatim>\<open>TypeError\<close> outside any \<^verbatim>\<open>try\<close>, so with one tag counted the call ends in the
  error, not in an empty or shorter list.
\<close>

theorem limit_none_raises:
  "compute_popular_tags utf8_strict SNOW_DIR
     (Listing [(ascii ''u.json'', Doc (JObj [(ascii ''tags'', JArr [JStr (ascii ''a'')])]))]) LimNone
   = Inl TypeError"
proof -
  have j: "is_json_name (ascii ''u.json'')"
    by (simp add: is_json_name_ascii ascii_def)
  have t: "spec_tags [(ascii ''tags'', JArr [JStr (ascii ''a'')])] = [ascii ''a'']"
    by (simp add: spec_tags_def spec_aggregated_def spec_numbered_def string_elements_def
          dict_get_def normalize_def strip_def py_isspace_def py_lower_ascii ascii_def)
  show ?thesis
    unfolding compute_single_object [OF j] t
    by (simp add: rank_tags_def py_int_def counter_incr_def counter_get_def dict_get_def)
qed

text \<open>
  Claim C5, amended. For every tag-count input and every integer limit, the ranker
  returns the first \<open>max 0 limit\<close> entries of the complete ranking, so a negative limit
  gives the empty list and not an error, and a limit of at least the number of tags
  gives the complete ranking; with no tag counted the result is empty whatever the
  limit; and with a tag counted, the limit \<^verbatim>\<open>None\<close> raises \<^verbatim>\<open>TypeError\<close>.
\<close>

theorem rank_limit_clamped:
  "rank_tags counter (LimInt n) = Inr (take (nat (max 0 n)) (full_ranking counter))
   \<and> length (full_ranking counter) = length counter
   \<and> rank_tags counter (LimInt (int (length counter))) = Inr (full_ranking counter)
   \<and> (n \<le> 0 \<longrightarrow> rank_tags counter (LimInt n) = Inr [])
   \<and> rank_tags [] lim = Inr []
   \<and> (counter \<noteq> [] \<longrightarrow> rank_tags counter LimNone = Inl TypeError)"
proof (intro conjI impI)
  show "rank_tags counter (LimInt n) = Inr (take (nat (max 0 n)) (full_ranking counter))"
    by (rule rank_tags_int)
  show "length (full_ranking counter) = length counter"
    by (rule length_full_ranking)
  show "rank_tags counter (LimInt (int (length counter))) = Inr (full_ranking counter)"
    by (simp add: rank_tags_int length_full_ranking)
  show "rank_tags counter (LimInt n) = Inr []" if "n \<le> 0"
    using that by (simp add: rank_tags_int)
  show "rank_tags [] lim = Inr []"
    by (simp add: rank_tags_def)
  show "rank_tags counter LimNone = Inl TypeError" if "counter \<noteq> []"
    using that by (simp add: rank_tags_def py_int_def)
qed

theorem rank_limit_clamped_witness:
  "(-3::int) \<le> 0
   \<and> rank_tags [(ascii ''b'', 2), (ascii ''a'', 2), (ascii ''c'', 5)] (LimInt (-3)) = Inr []
   \<and> rank_tags [(ascii ''b'', 2), (ascii ''a'', 2), (ascii ''c'', 5)] (LimInt 1) = Inr [ascii ''c'']
   \<and> [(ascii ''b'', 2::int), (ascii ''a'', 2), (ascii ''c'', 5)] \<noteq> []
   \<and> rank_tags [(ascii ''b'', 2), (ascii ''a'', 2), (ascii ''c'', 5)] LimNone = Inl TypeError"
proof -
  let ?C = "[(ascii ''b'', 2::int), (ascii ''a'', 2), (ascii ''c'', 5)]"
  have "rank_tags ?C (LimInt (-3)) = Inr []"
    using rank_limit_clamped [of ?C "-3" LimNone] by simp
  moreover have "rank_tags ?C (LimInt 1) = Inr [ascii ''c'']"
    using rank_limit_clamped [of ?C 1 LimNone] by (simp add: example_ranking)
  moreover have "rank_tags ?C LimNone = Inl TypeError"
    using rank_limit_clamped [of ?C 1 LimNone] by simp
  ultimately show ?thesis by simp
qed

text \<open>
  Claim C6. For every tag-count mapping and every non-negative limit the ranked output
  is no longer than the limit and no longer than the number of distinct tags; for the
  empty mapping it is empty; and for a whole run over a store that returns, the output
  is no longer than the limit and than the number of distinct normalized tags observed
  in the store. With no directory the run returns the empty list, once its diagnostic is
  printed.
\<close>

theorem rank_length:
  "(0 \<le> n \<and> distinct (map fst counter) \<longrightarrow>
      (\<exists>ranked. rank_tags counter (LimInt n) = Inr ranked
          \<and> int (length ranked) \<le> n \<and> length ranked \<le> card (fst ` set counter)))
   \<and> rank_tags [] lim = Inr []
   \<and> (0 \<le> n \<and> compute_popular_tags out path (Listing files) (LimInt n) = Inr tags \<longrightarrow>
        int (length tags) \<le> n \<and> length tags \<le> card (set (observed_tags files)))
   \<and> compute_popular_tags out path Absent lim
        = (if print_ok out path then Inr [] else Inl UnicodeEncodeError)"
proof (intro conjI impI)
  show "\<exists>ranked. rank_tags counter (LimInt n) = Inr ranked
          \<and> int (length ranked) \<le> n \<and> length ranked \<le> card (fst ` set counter)"
    if "0 \<le> n \<and> distinct (map fst counter)"
    using that length_rank_le [of n counter] by (simp add: rank_tags_int)
  show "rank_tags [] lim = Inr []"
    by (simp add: rank_tags_def)
  show "compute_popular_tags out path Absent lim
        = (if print_ok out path then Inr [] else Inl UnicodeEncodeError)"
    by (simp add: compute_popular_tags_def print_missing_tags)
  assume a: "0 \<le> n \<and> compute_popular_tags out path (Listing files) (LimInt n) = Inr tags"
  let ?js = "filter (\<lambda>(fname, f). is_json_name fname) files"
  from a obtain counter where sc: "scan_loop out ?js [] = Inr counter"
    and rk: "rank_tags counter (LimInt n) = Inr tags"
    by (cases "scan_loop out ?js []") (simp_all add: compute_popular_tags_def)
  from scan_loop_keys [OF sc] have d: "distinct (map fst counter)"
    and k: "set (map fst counter) = set (observed_tags files)"
    by (simp_all add: observed_tags_def)
  from rk have "tags = take (nat (max 0 n)) (full_ranking counter)"
    by (simp add: rank_tags_int)
  with length_rank_le [of n counter] a d k
  show "int (length tags) \<le> n" and "length tags \<le> card (set (observed_tags files))"
    by simp_all
qed

theorem rank_length_witness:
  "(0::int) \<le> 1 \<and> distinct (map fst [(ascii ''a'', 1::int), (ascii ''b'', 1)])
   \<and> rank_tags [(ascii ''a'', 1), (ascii ''b'', 1)] (LimInt 1) = Inr [ascii ''a'']
   \<and> compute_popular_tags utf8_strict SNOW_DIR
        (Listing [(ascii ''u.json'', Doc (JObj [(ascii ''tags'', JArr [JStr (ascii ''b''), JStr (ascii ''A'')])]))])
        (LimInt 1) = Inr [ascii ''a'']
   \<and> int (length [ascii ''a'']) \<le> 1
   \<and> length [ascii ''a''] \<le> card (set (observed_tags
        [(ascii ''u.json'', Doc (JObj [(ascii ''tags'', JArr [JStr (ascii ''b''), JStr (ascii ''A'')])]))]))"
proof -
  let ?C = "[(ascii ''a'', 1::int), (ascii ''b'', 1)]"
  let ?F = "[(ascii ''u.json'', Doc (JObj [(ascii ''tags'', JArr [JStr (ascii ''b''), JStr (ascii ''A'')])]))]"
  have d: "distinct (map fst ?C)" by (simp add: ascii_def)
  have r: "rank_tags ?C (LimInt 1) = Inr [ascii ''a'']"
    by (simp add: rank_tags_int full_ranking_def sort_key_of_def ascii_def less_eq_prod_def)
  have j: "is_json_name (ascii ''u.json'')"
    by (simp add: is_json_name_ascii ascii_def)
  have t: "spec_tags [(ascii ''tags'', JArr [JStr (ascii ''b''), JStr (ascii ''A'')])] = [ascii ''b'', ascii ''a'']"
    by (simp add: spec_tags_def spec_aggregated_def spec_numbered_def string_elements_def
          dict_get_def normalize_def strip_def py_isspace_def py_lower_ascii ascii_def)
  have c: "compute_popular_tags utf8_strict SNOW_DIR (Listing ?F) (LimInt 1) = Inr [ascii ''a'']"
    unfolding compute_single_object [OF j] t
    by (simp add: rank_tags_def py_int_def counter_incr_def counter_get_def dict_get_def
          sort_key_of_def less_eq_prod_def ascii_def)
  from rank_length [of 1 ?C LimNone utf8_strict SNOW_DIR ?F "[ascii ''a'']"] c
  have "int (length [ascii ''a'']) \<le> 1 \<and> length [ascii ''a''] \<le> card (set (observed_tags ?F))"
    by simp
  with d r c show ?thesis by simp
qed

section \<open>The files both passes read\<close>

lemma record_pairs_not_json: "\<not> is_json_name (fst entry) \<Longrightarrow> record_pairs entry = []"
  by (cases entry) (simp add: record_pairs_def)

lemma load_quiet_not_json: "\<not> is_json_name (fst entry) \<Longrightarrow> load_quiet out entry"
  by (cases entry) (simp add: load_quiet_def)

lemma concat_record_pairs_filter:
  "concat (map record_pairs (filter (\<lambda>(fname, f). is_json_name fname) files)) =
   concat (map record_pairs files)"
  by (induction files) (auto simp: record_pairs_not_json)

lemma load_quiet_filter:
  "list_all (load_quiet out) (filter (\<lambda>(fname, f). is_json_name fname) files) =
   list_all (load_quiet out) files"
  by (induction files) (auto simp: load_quiet_not_json)

lemma load_users_filter:
  "load_users out path (Listing (filter (\<lambda>(fname, f). is_json_name fname) files)) =
   load_users out path (Listing files)"
  by (simp only: load_users_listing concat_record_pairs_filter load_quiet_filter)

lemma record_pairs_mem:
  assumes "(name, uid) \<in> set (record_pairs (fname, f))"
  shows "is_json_name fname \<and> uid = take (length fname - 5) fname"
proof (cases "is_json_name fname")
  case False
  with assms show ?thesis by (simp add: record_pairs_def)
next
  case True
  show ?thesis
  proof (cases "load_try f")
    case (Inl e)
    with assms True show ?thesis by (simp add: record_pairs_def)
  next
    case (Inr r)
    with assms True show ?thesis by (cases r) (simp_all add: record_pairs_def)
  qed
qed

lemma compute_all_tags:
  assumes c: "compute_popular_tags out path (Listing files) (LimInt n) = Inr tags"
    and n: "int (length (observed_tags files)) \<le> n"
  shows "set tags = set (observed_tags files)"
proof -
  let ?js = "filter (\<lambda>(fname, f). is_json_name fname) files"
  from c obtain counter where sc: "scan_loop out ?js [] = Inr counter"
    and rk: "rank_tags counter (LimInt n) = Inr tags"
    by (cases "scan_loop out ?js []") (simp_all add: compute_popular_tags_def)
  from scan_loop_keys [OF sc] have d: "distinct (map fst counter)"
    and k: "set (map fst counter) = set (observed_tags files)"
    by (simp_all add: observed_tags_def)
  have "length counter = card (set (observed_tags files))"
    using d k distinct_card [of "map fst counter"] by simp
  also have "\<dots> \<le> length (observed_tags files)" by (rule card_length)
  finally have "int (length counter) \<le> n" using n by simp
  moreover from rk have "tags = take (nat (max 0 n)) (full_ranking counter)"
    by (simp add: rank_tags_int)
  ultimately have "tags = full_ranking counter"
    by (simp add: length_full_ranking)
  with k show ?thesis by (simp add: set_full_ranking)
qed

lemma ann: "strip (ascii ''Ann'') = ascii ''Ann''" "ascii ''Ann'' \<noteq> []"
  by (simp_all add: strip_def ascii_def py_isspace_def)

lemma tags_x: "spec_tags [(ascii ''tags'', JArr [JStr (ascii ''x'')])] = [ascii ''x'']"
  by (simp add: spec_tags_def spec_aggregated_def spec_numbered_def string_elements_def
        dict_get_def normalize_def strip_def py_isspace_def py_lower_ascii ascii_def)

text \<open>
  Claim C10. The loader and the tag aggregator depend only on the entries of the listing
  whose name, lowered, ends in \<^verbatim>\<open>.json\<close>: two listings with the same such entries give
  the same results, and a file of another name alone gives no pair and no tag, whatever
  it holds. A name qualifies exactly when its last five characters are \<^verbatim>\<open>.json\<close> in
  some mix of cases. Every id the loader returns is such a file name without its last
  five characters, and a file so named is loaded under the rest of its name. The tags
  the aggregator returns under a limit that cuts nothing are exactly the tags observed
  in such files, and a file so named has its tags counted. The file \<^verbatim>\<open>USER.JSON\<close> is
  loaded with the id \<^verbatim>\<open>USER\<close> and its tag is returned.
\<close>

theorem json_files_only:
  "(filter (\<lambda>(fname, f). is_json_name fname) files = filter (\<lambda>(fname, f). is_json_name fname) files' \<longrightarrow>
      load_users out path (Listing files) = load_users out path (Listing files')
      \<and> compute_popular_tags out path (Listing files) lim
          = compute_popular_tags out path (Listing files') lim)
   \<and> (load_users out path (Listing files) = Inr pairs \<and> (name, uid) \<in> set pairs \<longrightarrow>
        (\<exists>fname f. (fname, f) \<in> set files \<and> is_json_name fname \<and> uid = take (length fname - 5) fname))
   \<and> (compute_popular_tags out path (Listing files) (LimInt n) = Inr tags
        \<and> int (length (observed_tags files)) \<le> n \<longrightarrow> set tags = set (observed_tags files))
   \<and> (is_json_name fname \<longleftrightarrow>
        (\<exists>stem suffix. fname = stem @ suffix \<and> length suffix = 5 \<and> py_lower suffix = ascii ''.json''))
   \<and> (length suffix = 5 \<and> py_lower suffix = ascii ''.json'' \<and> print_ok out path \<longrightarrow>
        load_users out path (Listing [(stem @ suffix, Doc (JObj [(ascii ''name'', JStr (ascii ''Ann''))]))])
          = Inr [(ascii ''Ann'', stem)]
        \<and> compute_popular_tags out path
            (Listing [(stem @ suffix, Doc (JObj [(ascii ''tags'', JArr [JStr (ascii ''x'')])]))]) (LimInt 1)
          = Inr [ascii ''x''])
   \<and> (\<not> is_json_name fname \<longrightarrow>
        load_users out path (Listing [(fname, f)])
          = (if print_ok out path then Inr [] else Inl UnicodeEncodeError)
        \<and> compute_popular_tags out path (Listing [(fname, f)]) lim = Inr [])
   \<and> load_users utf8_strict SNOW_DIR
        (Listing [(ascii ''USER.JSON'', Doc (JObj [(ascii ''name'', JStr (ascii ''Ann''))]))])
        = Inr [(ascii ''Ann'', ascii ''USER'')]
   \<and> compute_popular_tags utf8_strict SNOW_DIR
        (Listing [(ascii ''USER.JSON'', Doc (JObj [(ascii ''tags'', JArr [JStr (ascii ''x'')])]))])
        (LimInt 200)
        = Inr [ascii ''x'']"
proof -
  have same: "load_users out path (Listing files) = load_users out path (Listing files')
      \<and> compute_popular_tags out path (Listing files) lim
          = compute_popular_tags out path (Listing files') lim"
    if "filter (\<lambda>(fname, f). is_json_name fname) files = filter (\<lambda>(fname, f). is_json_name fname) files'"
  proof -
    have "load_users out path (Listing files) = load_users out path (Listing files')"
      using that load_users_filter [of out path files] load_users_filter [of out path files']
      by simp
    moreover have "compute_popular_tags out path (Listing files) lim
        = compute_popular_tags out path (Listing files') lim"
      using that by (simp add: compute_popular_tags_def)
    ultimately show ?thesis by blast
  qed
  have uid: "\<exists>fname f. (fname, f) \<in> set files \<and> is_json_name fname \<and> uid = take (length fname - 5) fname"
    if "load_users out path (Listing files) = Inr pairs \<and> (name, uid) \<in> set pairs"
  proof -
    from that have "pairs = concat (map record_pairs files)"
      by (simp add: load_users_listing split: if_splits)
    with that obtain entry where e: "entry \<in> set files" "(name, uid) \<in> set (record_pairs entry)"
      by auto
    obtain fname f where ef: "entry = (fname, f)" by (cases entry)
    from e(2) have "is_json_name fname \<and> uid = take (length fname - 5) fname"
      unfolding ef by (rule record_pairs_mem)
    with e(1) ef show ?thesis by blast
  qed
  have all: "set tags = set (observed_tags files)"
    if "compute_popular_tags out path (Listing files) (LimInt n) = Inr tags
        \<and> int (length (observed_tags files)) \<le> n"
    using that compute_all_tags by blast
  have rank_x: "rank_tags [(ascii ''x'', 1)] (LimInt m) = Inr [ascii ''x'']" if "1 \<le> m" for m
    using that by (simp add: rank_tags_def py_int_def)
  have fold_x: "fold (\<lambda>t c. counter_incr c t) [ascii ''x''] [] = [(ascii ''x'', 1)]"
    by (simp add: counter_incr_def counter_get_def dict_get_def)
  have gen: "load_users out path (Listing [(stem @ suffix, Doc (JObj [(ascii ''name'', JStr (ascii ''Ann''))]))])
          = Inr [(ascii ''Ann'', stem)]
        \<and> compute_popular_tags out path
            (Listing [(stem @ suffix, Doc (JObj [(ascii ''tags'', JArr [JStr (ascii ''x'')])]))]) (LimInt m)
          = Inr [ascii ''x'']"
    if "length suffix = 5 \<and> py_lower suffix = ascii ''.json'' \<and> print_ok out path" and "1 \<le> m"
    for stem suffix out path m
  proof -
    have j: "is_json_name (stem @ suffix)"
      using that is_json_name_split by blast
    have "load_users out path (Listing [(stem @ suffix, Doc (JObj [(ascii ''name'', JStr (ascii ''Ann''))]))])
          = Inr [(ascii ''Ann'', stem)]"
      using that ann
      by (simp add: load_users_listing record_pairs_object [OF j] load_quiet_object [OF j] dict_get_def)
    moreover have "compute_popular_tags out path
            (Listing [(stem @ suffix, Doc (JObj [(ascii ''tags'', JArr [JStr (ascii ''x'')])]))]) (LimInt m)
          = Inr [ascii ''x'']"
      unfolding compute_single_object [OF j] tags_x fold_x using that(2) by (rule rank_x)
    ultimately show ?thesis by blast
  qed
  have non: "load_users out path (Listing [(fname, f)])
          = (if print_ok out path then Inr [] else Inl UnicodeEncodeError)
        \<and> compute_popular_tags out path (Listing [(fname, f)]) lim = Inr []"
    if "\<not> is_json_name fname"
    using that
    by (simp add: load_users_listing record_pairs_def load_quiet_def compute_popular_tags_def
          rank_tags_def)
  have up: "length (ascii ''.JSON'') = 5 \<and> py_lower (ascii ''.JSON'') = ascii ''.json''
      \<and> print_ok utf8_strict SNOW_DIR"
    by (simp add: py_lower_ascii ascii_def)
  from gen [of "ascii ''.JSON''" utf8_strict SNOW_DIR 200 "ascii ''USER''", OF up]
  have ex: "load_users utf8_strict SNOW_DIR
        (Listing [(ascii ''USER.JSON'', Doc (JObj [(ascii ''name'', JStr (ascii ''Ann''))]))])
        = Inr [(ascii ''Ann'', ascii ''USER'')]
   \<and> compute_popular_tags utf8_strict SNOW_DIR
        (Listing [(ascii ''USER.JSON'', Doc (JObj [(ascii ''tags'', JArr [JStr (ascii ''x'')])]))])
        (LimInt 200)
        = Inr [ascii ''x'']"
    by (simp add: ascii_def)
  show ?thesis
  proof (intro conjI impI)
    assume a: "filter (\<lambda>(fname, f). is_json_name fname) files
        = filter (\<lambda>(fname, f). is_json_name fname) files'"
    from same [OF a] show "load_users out path (Listing files) = load_users out path (Listing files')"
      and "compute_popular_tags out path (Listing files) lim
          = compute_popular_tags out path (Listing files') lim"
      by blast+
  next
    assume "load_users out path (Listing files) = Inr pairs \<and> (name, uid) \<in> set pairs"
    then show "\<exists>fname f. (fname, f) \<in> set files \<and> is_json_name fname \<and> uid = take (length fname - 5) fname"
      by (rule uid)
  next
    assume "compute_popular_tags out path (Listing files) (LimInt n) = Inr tags
        \<and> int (length (observed_tags files)) \<le> n"
    then show "set tags = set (observed_tags files)" by (rule all)
  next
    show "is_json_name fname \<longleftrightarrow>
        (\<exists>stem suffix. fname = stem @ suffix \<and> length suffix = 5 \<and> py_lower suffix = ascii ''.json'')"
      by (rule is_json_name_split)
  next
    assume a: "length suffix = 5 \<and> py_lower suffix = ascii ''.json'' \<and> print_ok out path"
    from gen [OF a, of 1 stem]
    show "load_users out path (Listing [(stem @ suffix, Doc (JObj [(ascii ''name'', JStr (ascii ''Ann''))]))])
          = Inr [(ascii ''Ann'', stem)]"
      and "compute_popular_tags out path
            (Listing [(stem @ suffix, Doc (JObj [(ascii ''tags'', JArr [JStr (ascii ''x'')])]))]) (LimInt 1)
          = Inr [ascii ''x'']"
      by simp_all
  next
    assume a: "\<not> is_json_name fname"
    from non [OF a]
    show "load_users out path (Listing [(fname, f)])
          = (if print_ok out path then Inr [] else Inl UnicodeEncodeError)"
      and "compute_popular_tags out path (Listing [(fname, f)]) lim = Inr []"
      by blast+
  next
    from ex show "load_users utf8_strict SNOW_DIR
        (Listing [(ascii ''USER.JSON'', Doc (JObj [(ascii ''name'', JStr (ascii ''Ann''))]))])
        = Inr [(ascii ''Ann'', ascii ''USER'')]"
      and "compute_popular_tags utf8_strict SNOW_DIR
        (Listing [(ascii ''USER.JSON'', Doc (JObj [(ascii ''tags'', JArr [JStr (ascii ''x'')])]))])
        (LimInt 200)
        = Inr [ascii ''x'']"
      by blast+
  qed
qed


theorem json_files_only_witness:
  "filter (\<lambda>(fname, f). is_json_name fname)
       [(ascii ''notes.txt'', Doc (JArr [])),
        (ascii ''USER.JSON'', Doc (JObj [(ascii ''name'', JStr (ascii ''Ann'')),
                                         (ascii ''tags'', JArr [JStr (ascii ''x'')])]))]
     = filter (\<lambda>(fname, f). is_json_name fname)
       [(ascii ''USER.JSON'', Doc (JObj [(ascii ''name'', JStr (ascii ''Ann'')),
                                         (ascii ''tags'', JArr [JStr (ascii ''x'')])]))]
   \<and> load_users utf8_strict SNOW_DIR (Listing
       [(ascii ''notes.txt'', Doc (JArr [])),
        (ascii ''USER.JSON'', Doc (JObj [(ascii ''name'', JStr (ascii ''Ann'')),
                                         (ascii ''tags'', JArr [JStr (ascii ''x'')])]))])
       = Inr [(ascii ''Ann'', ascii ''USER'')]
   \<and> compute_popular_tags utf8_strict SNOW_DIR (Listing
       [(ascii ''notes.txt'', Doc (JArr [])),
        (ascii ''USER.JSON'', Doc (JObj [(ascii ''name'', JStr (ascii ''Ann'')),
                                         (ascii ''tags'', JArr [JStr (ascii ''x'')])]))]) (LimInt 200)
       = Inr [ascii ''x'']
   \<and> \<not> is_json_name (ascii ''notes.txt'')
   \<and> compute_popular_tags utf8_strict SNOW_DIR (Listing [(ascii ''notes.txt'', Doc (JArr []))]) (LimInt 200)
       = Inr []
   \<and> (\<exists>fname f. (fname, f) \<in> set
          [(ascii ''USER.JSON'', Doc (JObj [(ascii ''name'', JStr (ascii ''Ann'')),
                                            (ascii ''tags'', JArr [JStr (ascii ''x'')])]))]
         \<and> is_json_name fname \<and> ascii ''USER'' = take (length fname - 5) fname)
   \<and> int (length (observed_tags
          [(ascii ''USER.JSON'', Doc (JObj [(ascii ''name'', JStr (ascii ''Ann'')),
                                            (ascii ''tags'', JArr [JStr (ascii ''x'')])]))])) \<le> 200
   \<and> set [ascii ''x''] = set (observed_tags
          [(ascii ''USER.JSON'', Doc (JObj [(ascii ''name'', JStr (ascii ''Ann'')),
                                            (ascii ''tags'', JArr [JStr (ascii ''x'')])]))])
   \<and> length (ascii ''.JSON'') = 5 \<and> py_lower (ascii ''.JSON'') = ascii ''.json''
   \<and> print_ok utf8_strict SNOW_DIR"
proof -
  let ?txt = "(ascii ''notes.txt'', Doc (JArr []))"
  let ?kvs = "[(ascii ''name'', JStr (ascii ''Ann'')), (ascii ''tags'', JArr [JStr (ascii ''x'')])]"
  let ?usr = "(ascii ''USER.JSON'', Doc (JObj ?kvs))"
  have ju: "is_json_name (ascii ''USER.JSON'')"
    by (simp add: is_json_name_ascii ascii_def)
  have jt: "\<not> is_json_name (ascii ''notes.txt'')"
    by (simp add: is_json_name_ascii ascii_def)
  have f: "filter (\<lambda>(fname, f). is_json_name fname) [?txt, ?usr]
      = filter (\<lambda>(fname, f). is_json_name fname) [?usr]"
    using ju jt by simp
  have s: "length (ascii ''.JSON'') = 5 \<and> py_lower (ascii ''.JSON'') = ascii ''.json''
      \<and> print_ok utf8_strict SNOW_DIR"
    by (simp add: py_lower_ascii ascii_def)
  have sn: "spec_numbered ?kvs = []"
    using tag_key_examples by (simp add: spec_numbered_def)
  have sa: "spec_aggregated ?kvs = [ascii ''x'']"
    by (simp add: spec_aggregated_def dict_get_def string_elements_def ascii_def)
  have t: "spec_tags ?kvs = [ascii ''x'']"
    by (simp add: spec_tags_def sa sn normalize_examples) (simp add: ascii_def)
  have o: "observed_tags [?usr] = [ascii ''x'']"
    using ju by (simp add: observed_tags_def record_observed_def t)
  have u: "load_users utf8_strict SNOW_DIR (Listing [?usr]) = Inr [(ascii ''Ann'', ascii ''USER'')]"
    using ann
    by (simp add: load_users_listing record_pairs_object [OF ju] load_quiet_object [OF ju] dict_get_def)
       (simp add: ascii_def)
  have c: "compute_popular_tags utf8_strict SNOW_DIR (Listing [?usr]) (LimInt 200) = Inr [ascii ''x'']"
    unfolding compute_single_object [OF ju] t
    by (simp add: rank_tags_def py_int_def counter_incr_def counter_get_def dict_get_def)
  note inst1 = json_files_only [of "[?txt, ?usr]" "[?usr]" utf8_strict SNOW_DIR "LimInt 200"
      "[(ascii ''Ann'', ascii ''USER'')]" "ascii ''Ann''" "ascii ''USER''" 200 "[ascii ''x'']"
      "ascii ''notes.txt''" "ascii ''.JSON''" "ascii ''USER''" "Doc (JArr [])"]
  note inst2 = json_files_only [of "[?usr]" "[?usr]" utf8_strict SNOW_DIR "LimInt 200"
      "[(ascii ''Ann'', ascii ''USER'')]" "ascii ''Ann''" "ascii ''USER''" 200 "[ascii ''x'']"
      "ascii ''notes.txt''" "ascii ''.JSON''" "ascii ''USER''" "Doc (JArr [])"]
  from inst1 f have l1: "load_users utf8_strict SNOW_DIR (Listing [?txt, ?usr])
        = load_users utf8_strict SNOW_DIR (Listing [?usr])"
    and c1: "compute_popular_tags utf8_strict SNOW_DIR (Listing [?txt, ?usr]) (LimInt 200)
        = compute_popular_tags utf8_strict SNOW_DIR (Listing [?usr]) (LimInt 200)"
    by (elim conjE; simp)+
  from inst1 jt have n1: "compute_popular_tags utf8_strict SNOW_DIR (Listing [?txt]) (LimInt 200) = Inr []"
    by (elim conjE) simp
  have m: "(ascii ''Ann'', ascii ''USER'') \<in> set [(ascii ''Ann'', ascii ''USER'')]" by simp
  from inst2 u m have e: "\<exists>fname f. (fname, f) \<in> set [?usr]
         \<and> is_json_name fname \<and> ascii ''USER'' = take (length fname - 5) fname"
    by (elim conjE) blast
  have le: "int (length (observed_tags [?usr])) \<le> 200" by (simp add: o)
  from inst2 c le have st: "set [ascii ''x''] = set (observed_tags [?usr])"
    by (elim conjE) blast
  from f l1 u c1 c jt n1 e le st s show ?thesis
    by (simp only: simp_thms)
qed

end
